theory Spec2Isabelle
  imports Main "HOL-Library.Word" "HOL-Library.List_Lexorder"
begin

section \<open>Memory, raw pointers and errors\<close>

text \<open>
  \<^verbatim>\<open>SimpleVector<Type>\<close> keeps two \<^verbatim>\<open>size_t\<close> counters and an \<^verbatim>\<open>ArrayPtr<Type>\<close> that owns a
  block of slots on the free store.  Blocks live in an explicit store, indexed by block
  addresses; a raw pointer \<^verbatim>\<open>Type*\<close> is a block address (none for \<^verbatim>\<open>nullptr\<close>) and an offset
  into the block.  \<^verbatim>\<open>size_t\<close> is a 64-bit word, so every \<^verbatim>\<open>+\<close>, \<^verbatim>\<open>-\<close> and \<^verbatim>\<open>*\<close> on it wraps.
\<close>

type_synonym size_t = "64 word"
type_synonym addr = nat

text \<open>
  \<open>OutOfRange\<close> is \<^verbatim>\<open>std::out_of_range\<close>, \<open>BadAlloc\<close> the allocation failure of the storage
  owner, \<open>AssertFailed\<close> a failing \<^verbatim>\<open>assert\<close>, and \<open>Undefined\<close> an access outside a live
  block or an invalid iterator range (undefined behaviour in C++).
\<close>

datatype error = OutOfRange | BadAlloc | AssertFailed | Undefined

record 'a memory =
  blocks :: "addr \<Rightarrow> 'a list option"
  fresh :: addr

datatype ptr = Ptr (block_of: "addr option") (offset: nat)

definition ptr_add :: "ptr \<Rightarrow> nat \<Rightarrow> ptr" where
  "ptr_add p n = Ptr (block_of p) (offset p + n)"

definition ptr_le :: "ptr \<Rightarrow> ptr \<Rightarrow> bool" where
  "ptr_le p q = (block_of p = block_of q \<and> offset p \<le> offset q)"

definition then_do :: "error + 'x \<Rightarrow> ('x \<Rightarrow> error + 'y) \<Rightarrow> error + 'y" where
  "then_do r f = (case r of Inl e \<Rightarrow> Inl e | Inr x \<Rightarrow> f x)"

definition load :: "ptr \<Rightarrow> 'a memory \<Rightarrow> error + 'a" where
  "load p m =
     (case block_of p of
        None \<Rightarrow> Inl Undefined
      | Some a \<Rightarrow>
          (case blocks m a of
             None \<Rightarrow> Inl Undefined
           | Some blk \<Rightarrow> if offset p < length blk then Inr (blk ! offset p) else Inl Undefined))"

definition store :: "ptr \<Rightarrow> 'a \<Rightarrow> 'a memory \<Rightarrow> error + 'a memory" where
  "store p x m =
     (case block_of p of
        None \<Rightarrow> Inl Undefined
      | Some a \<Rightarrow>
          (case blocks m a of
             None \<Rightarrow> Inl Undefined
           | Some blk \<Rightarrow>
               if offset p < length blk
               then Inr (m\<lparr>blocks := (blocks m)(a \<mapsto> blk[offset p := x])\<rparr>)
               else Inl Undefined))"

text \<open>
  A parameter of type \<^verbatim>\<open>const Type&\<close> or \<^verbatim>\<open>Type&&\<close> is a reference, and what it yields is
  decided when the callee reads it, not when the call is made.  The object referred to is
  either an object of the caller that is not in the store (a local or a temporary, given by
  its value), or a slot of a block, such as \<^verbatim>\<open>v[0]\<close>.
\<close>

datatype 'a ref = Local 'a | Stored ptr

definition read_ref :: "'a ref \<Rightarrow> 'a memory \<Rightarrow> error + 'a" where
  "read_ref r m = (case r of Local x \<Rightarrow> Inr x | Stored p \<Rightarrow> load p m)"

text \<open>
  What the element type and the platform contribute: \<open>Type_default\<close> is \<^verbatim>\<open>Type{}\<close>,
  \<open>moved_from x\<close> is the value left in an object that held \<open>x\<close> after \<^verbatim>\<open>std::move\<close> took it
  (\<open>x\<close> itself for a trivially copyable type), and \<open>obtainable n\<close> tells whether a block of
  \<open>n\<close> slots can be obtained.
\<close>

record 'a env =
  Type_default :: 'a
  moved_from :: "'a \<Rightarrow> 'a"
  obtainable :: "nat \<Rightarrow> bool"

section \<open>The algorithms of the standard library that the container calls\<close>

text \<open>
  Each one is the loop of its reference implementation.  A range \<open>[first, last)\<close> that is not
  empty must lie in one block with \<open>first\<close> before \<open>last\<close>; anything else is undefined
  behaviour.
\<close>

function std_copy :: "ptr \<Rightarrow> ptr \<Rightarrow> ptr \<Rightarrow> 'a memory \<Rightarrow> error + 'a memory" where
  "std_copy first lst d_first m =
     (if first = lst then Inr m
      else if block_of first = block_of lst \<and> offset first < offset lst then
        then_do (load first m) (\<lambda>x.
        then_do (store d_first x m) (\<lambda>m.
          std_copy (ptr_add first 1) lst (ptr_add d_first 1) m))
      else Inl Undefined)"
  by pat_completeness auto
termination
  by (relation "measure (\<lambda>(first, lst, d_first, m). offset lst - offset first)")
     (auto simp: ptr_add_def)

function std_move :: "'a env \<Rightarrow> ptr \<Rightarrow> ptr \<Rightarrow> ptr \<Rightarrow> 'a memory \<Rightarrow> error + 'a memory" where
  "std_move E first lst d_first m =
     (if first = lst then Inr m
      else if block_of first = block_of lst \<and> offset first < offset lst then
        then_do (load first m) (\<lambda>x.
        then_do (store d_first x m) (\<lambda>m.
        then_do (store first (moved_from E x) m) (\<lambda>m.
          std_move E (ptr_add first 1) lst (ptr_add d_first 1) m)))
      else Inl Undefined)"
  by pat_completeness auto
termination
  by (relation "measure (\<lambda>(E, first, lst, d_first, m). offset lst - offset first)")
     (auto simp: ptr_add_def)

function std_copy_backward :: "ptr \<Rightarrow> ptr \<Rightarrow> ptr \<Rightarrow> 'a memory \<Rightarrow> error + 'a memory" where
  "std_copy_backward first lst d_last m =
     (if first = lst then Inr m
      else if block_of first = block_of lst \<and> offset first < offset lst \<and> 0 < offset d_last then
        then_do (load (Ptr (block_of lst) (offset lst - 1)) m) (\<lambda>x.
        then_do (store (Ptr (block_of d_last) (offset d_last - 1)) x m) (\<lambda>m.
          std_copy_backward first (Ptr (block_of lst) (offset lst - 1))
            (Ptr (block_of d_last) (offset d_last - 1)) m))
      else Inl Undefined)"
  by pat_completeness auto
termination
  by (relation "measure (\<lambda>(first, lst, d_last, m). offset lst - offset first)") auto

function std_fill :: "ptr \<Rightarrow> ptr \<Rightarrow> 'a \<Rightarrow> 'a memory \<Rightarrow> error + 'a memory" where
  "std_fill first lst v m =
     (if first = lst then Inr m
      else if block_of first = block_of lst \<and> offset first < offset lst then
        then_do (store first v m) (\<lambda>m. std_fill (ptr_add first 1) lst v m)
      else Inl Undefined)"
  by pat_completeness auto
termination
  by (relation "measure (\<lambda>(first, lst, v, m). offset lst - offset first)")
     (auto simp: ptr_add_def)

text \<open>
  \<^verbatim>\<open>std::generate\<close> with a generator that takes no state: the container only ever passes
  \<^verbatim>\<open>[]() { return std::move(Type{}); }\<close>, so the generator is the value it yields.
\<close>

function std_generate :: "ptr \<Rightarrow> ptr \<Rightarrow> 'a \<Rightarrow> 'a memory \<Rightarrow> error + 'a memory" where
  "std_generate first lst g m =
     (if first = lst then Inr m
      else if block_of first = block_of lst \<and> offset first < offset lst then
        then_do (store first g m) (\<lambda>m. std_generate (ptr_add first 1) lst g m)
      else Inl Undefined)"
  by pat_completeness auto
termination
  by (relation "measure (\<lambda>(first, lst, g, m). offset lst - offset first)")
     (auto simp: ptr_add_def)

text \<open>\<^verbatim>\<open>std::copy\<close> out of an initializer list, whose elements are not in the store.\<close>

fun copy_init :: "'a list \<Rightarrow> ptr \<Rightarrow> 'a memory \<Rightarrow> error + 'a memory" where
  "copy_init [] d_first m = Inr m"
| "copy_init (x # xs) d_first m =
     then_do (store d_first x m) (\<lambda>m. copy_init xs (ptr_add d_first 1) m)"

text \<open>\<^verbatim>\<open>std::distance\<close> of two raw pointers, converted to \<^verbatim>\<open>size_t\<close> as the callers do.\<close>

definition std_distance :: "ptr \<Rightarrow> ptr \<Rightarrow> size_t" where
  "std_distance first lst = word_of_int (int (offset lst) - int (offset first))"

text \<open>
  The four-iterator \<^verbatim>\<open>std::equal\<close> on random-access iterators: different lengths are unequal
  without looking at any element; otherwise the elements are compared pairwise, in order.
\<close>

function equal_loop :: "ptr \<Rightarrow> ptr \<Rightarrow> ptr \<Rightarrow> 'a memory \<Rightarrow> error + bool" where
  "equal_loop first1 last1 first2 m =
     (if first1 = last1 then Inr True
      else if block_of first1 = block_of last1 \<and> offset first1 < offset last1 then
        then_do (load first1 m) (\<lambda>x.
        then_do (load first2 m) (\<lambda>y.
          if x = y then equal_loop (ptr_add first1 1) last1 (ptr_add first2 1) m
          else Inr False))
      else Inl Undefined)"
  by pat_completeness auto
termination
  by (relation "measure (\<lambda>(first1, last1, first2, m). offset last1 - offset first1)")
     (auto simp: ptr_add_def)

definition std_equal :: "ptr \<Rightarrow> ptr \<Rightarrow> ptr \<Rightarrow> ptr \<Rightarrow> 'a memory \<Rightarrow> error + bool" where
  "std_equal first1 last1 first2 last2 m =
     (if std_distance first1 last1 \<noteq> std_distance first2 last2 then Inr False
      else equal_loop first1 last1 first2 m)"

function std_lexicographical_compare ::
  "ptr \<Rightarrow> ptr \<Rightarrow> ptr \<Rightarrow> ptr \<Rightarrow> ('a::linorder) memory \<Rightarrow> error + bool" where
  "std_lexicographical_compare first1 last1 first2 last2 m =
     (if first1 \<noteq> last1 \<and> first2 \<noteq> last2 then
        if block_of first1 = block_of last1 \<and> offset first1 < offset last1 then
          then_do (load first1 m) (\<lambda>x.
          then_do (load first2 m) (\<lambda>y.
            if x < y then Inr True
            else if y < x then Inr False
            else std_lexicographical_compare (ptr_add first1 1) last1 (ptr_add first2 1) last2 m))
        else Inl Undefined
      else Inr (first1 = last1 \<and> first2 \<noteq> last2))"
  by pat_completeness auto
termination
  by (relation "measure (\<lambda>(first1, last1, first2, last2, m). offset last1 - offset first1)")
     (auto simp: ptr_add_def)

section \<open>The storage owner\<close>

text \<open>
  Modelled from the spec: \<^verbatim>\<open>array_ptr.h\<close>, the raw-memory-block owner, is not among the
  sources.  The spec names its operations: allocate a block of \<open>n\<close> default-valued slots
  (failing with an allocation error when the block cannot be obtained), exchange contents
  with another owner, hand out the raw pointer, release the block on destruction.  An owner
  is its raw pointer: the address of the block, or none.
\<close>

type_synonym ArrayPtr = "addr option"

text \<open>
  Modelled from the spec: \<^verbatim>\<open>ArrayPtr(n)\<close> allocates a block of \<open>n\<close> default-valued slots, at
  an address that no block ever had, or fails with the allocation error.
\<close>

definition ArrayPtr_new :: "'a env \<Rightarrow> size_t \<Rightarrow> 'a memory \<Rightarrow> error + (ArrayPtr \<times> 'a memory)" where
  "ArrayPtr_new E n m =
     (if obtainable E (unat n)
      then Inr (Some (fresh m),
                m\<lparr>blocks := (blocks m)(fresh m \<mapsto> replicate (unat n) (Type_default E)),
                  fresh := Suc (fresh m)\<rparr>)
      else Inl BadAlloc)"

text \<open>Modelled from the spec: the destructor of the owner releases its block.\<close>

definition ArrayPtr_release :: "ArrayPtr \<Rightarrow> 'a memory \<Rightarrow> 'a memory" where
  "ArrayPtr_release p m = (case p of None \<Rightarrow> m | Some a \<Rightarrow> m\<lparr>blocks := (blocks m)(a := None)\<rparr>)"

text \<open>Modelled from the spec: \<^verbatim>\<open>swap\<close> exchanges the blocks of two owners.\<close>

definition ArrayPtr_swap :: "ArrayPtr \<Rightarrow> ArrayPtr \<Rightarrow> ArrayPtr \<times> ArrayPtr" where
  "ArrayPtr_swap p q = (q, p)"

text \<open>
  Modelled from the spec: move assignment onto an owner that holds no block, which is how
  the vector's move constructor uses it: the target takes the block of the source and the
  source is left with none.  The result is the new target and the new source.
\<close>

definition ArrayPtr_move_assign :: "ArrayPtr \<Rightarrow> ArrayPtr \<times> ArrayPtr" where
  "ArrayPtr_move_assign other = (other, None)"

text \<open>Modelled from the spec: \<^verbatim>\<open>Get\<close> hands out the raw pointer to the first slot.\<close>

definition Get :: "ArrayPtr \<Rightarrow> ptr" where
  "Get p = Ptr p 0"

text \<open>Modelled from the spec: \<^verbatim>\<open>operator[]\<close> of the owner, the unchecked reference to a slot.\<close>

definition subscript :: "ArrayPtr \<Rightarrow> size_t \<Rightarrow> ptr" where
  "subscript p index = Ptr p (unat index)"

section \<open>SimpleVector\<close>

record SimpleVector =
  v_size :: size_t
  v_capacity :: size_t
  v_items :: ArrayPtr

definition GetSize :: "SimpleVector \<Rightarrow> size_t" where
  "GetSize v = v_size v"

definition GetCapacity :: "SimpleVector \<Rightarrow> size_t" where
  "GetCapacity v = v_capacity v"

definition IsEmpty :: "SimpleVector \<Rightarrow> bool" where
  "IsEmpty v = (v_size v = 0)"

definition v_begin :: "SimpleVector \<Rightarrow> ptr" where
  "v_begin v = Get (v_items v)"

definition v_end :: "SimpleVector \<Rightarrow> ptr" where
  "v_end v = ptr_add (Get (v_items v)) (unat (v_size v))"

text \<open>\<^verbatim>\<open>operator[]\<close> and \<^verbatim>\<open>At\<close> return a reference: the pointer to the slot.\<close>

definition operator_index :: "size_t \<Rightarrow> SimpleVector \<Rightarrow> error + ptr" where
  "operator_index index v =
     (if index < v_size v then Inr (subscript (v_items v) index) else Inl AssertFailed)"

definition At :: "size_t \<Rightarrow> SimpleVector \<Rightarrow> error + ptr" where
  "At index v =
     (if index \<ge> v_size v then Inl OutOfRange else Inr (subscript (v_items v) index))"

definition Clear :: "SimpleVector \<Rightarrow> SimpleVector" where
  "Clear v = v\<lparr>v_size := 0\<rparr>"

definition Reserve ::
  "'a env \<Rightarrow> size_t \<Rightarrow> SimpleVector \<Rightarrow> 'a memory \<Rightarrow> error + (SimpleVector \<times> 'a memory)" where
  "Reserve E new_capacity v m =
     (if new_capacity > v_capacity v then
        then_do (ArrayPtr_new E new_capacity m) (\<lambda>(new_items, m).
        then_do (std_move E (Get (v_items v)) (ptr_add (Get (v_items v)) (unat (v_size v)))
                   (Get new_items) m) (\<lambda>m.
        then_do (std_generate (ptr_add (Get new_items) (unat (v_size v)))
                   (ptr_add (Get new_items) (unat new_capacity)) (Type_default E) m) (\<lambda>m.
          let (items, new_items) = ArrayPtr_swap (v_items v) new_items in
          Inr (v\<lparr>v_items := items, v_capacity := new_capacity\<rparr>, ArrayPtr_release new_items m))))
      else Inr (v, m))"

definition Resize ::
  "'a env \<Rightarrow> size_t \<Rightarrow> SimpleVector \<Rightarrow> 'a memory \<Rightarrow> error + (SimpleVector \<times> 'a memory)" where
  "Resize E new_size v m =
     (if v_size v = new_size then Inr (v, m)
      else
        then_do
          (if new_size \<le> v_capacity v \<and> new_size > v_size v then
             then_do (std_generate (ptr_add (Get (v_items v)) (unat (v_size v)))
                        (ptr_add (Get (v_items v)) (unat new_size)) (Type_default E) m)
               (\<lambda>m. Inr (v, m))
           else if new_size > v_capacity v then
             let new_capacity = max new_size (v_capacity v * 2) in
             Reserve E new_capacity v m
           else Inr (v, m))
          (\<lambda>(v, m). Inr (v\<lparr>v_size := new_size\<rparr>, m)))"

text \<open>
  \<^verbatim>\<open>PushBack(const Type& item)\<close>.  The argument is read by \<^verbatim>\<open>items_[size_] = item\<close>, which in
  the first branch comes after \<^verbatim>\<open>Reserve\<close> has moved the elements out of the old block and
  released it.
\<close>

definition PushBack ::
  "'a env \<Rightarrow> 'a ref \<Rightarrow> SimpleVector \<Rightarrow> 'a memory \<Rightarrow> error + (SimpleVector \<times> 'a memory)" where
  "PushBack E item v m =
     (if v_size v = v_capacity v then
        let new_capacity = (if v_size v = 0 then 1 else v_capacity v * 2) in
        then_do (Reserve E new_capacity v m) (\<lambda>(v, m).
        then_do (read_ref item m) (\<lambda>x.
        then_do (store (subscript (v_items v) (v_size v)) x m) (\<lambda>m.
          Inr (v\<lparr>v_size := v_size v + 1\<rparr>, m))))
      else
        then_do (read_ref item m) (\<lambda>x.
        then_do (store (subscript (v_items v) (v_size v)) x m) (\<lambda>m.
          Inr (v\<lparr>v_size := v_size v + 1\<rparr>, m))))"

text \<open>
  \<^verbatim>\<open>PushBack(Type&& item)\<close>: the same statements with \<^verbatim>\<open>items_[size_] = std::move(item)\<close>, which
  also leaves the object referred to in its moved-from state.  An object of the caller that
  is not in the store is the caller's to look at afterwards; a slot of a block is updated.
\<close>

definition move_out :: "'a env \<Rightarrow> 'a ref \<Rightarrow> 'a \<Rightarrow> 'a memory \<Rightarrow> error + 'a memory" where
  "move_out E r x m = (case r of Local y \<Rightarrow> Inr m | Stored p \<Rightarrow> store p (moved_from E x) m)"

definition PushBack_rv ::
  "'a env \<Rightarrow> 'a ref \<Rightarrow> SimpleVector \<Rightarrow> 'a memory \<Rightarrow> error + (SimpleVector \<times> 'a memory)" where
  "PushBack_rv E item v m =
     (if v_size v = v_capacity v then
        let new_capacity = (if v_size v = 0 then 1 else v_capacity v * 2) in
        then_do (Reserve E new_capacity v m) (\<lambda>(v, m).
        then_do (read_ref item m) (\<lambda>x.
        then_do (store (subscript (v_items v) (v_size v)) x m) (\<lambda>m.
        then_do (move_out E item x m) (\<lambda>m.
          Inr (v\<lparr>v_size := v_size v + 1\<rparr>, m)))))
      else
        then_do (read_ref item m) (\<lambda>x.
        then_do (store (subscript (v_items v) (v_size v)) x m) (\<lambda>m.
        then_do (move_out E item x m) (\<lambda>m.
          Inr (v\<lparr>v_size := v_size v + 1\<rparr>, m)))))"

text \<open>
  \<^verbatim>\<open>Insert(ConstIterator pos, const Type& value)\<close>.  The result is the iterator to the
  inserted element, the vector and the store.  The argument is read by
  \<^verbatim>\<open>new_items[index] = value\<close>; up to there the call has only obtained the new block and
  written to it, and the old block is released at the very end, so the reference yields what
  it referred to when the call was made: \<open>val\<close> is that value.
\<close>

definition Insert ::
  "'a env \<Rightarrow> ptr \<Rightarrow> 'a \<Rightarrow> SimpleVector \<Rightarrow> 'a memory \<Rightarrow> error + (ptr \<times> SimpleVector \<times> 'a memory)" where
  "Insert E pos val v m =
     (if \<not> (ptr_le (Get (v_items v)) pos \<and> ptr_le pos (ptr_add (Get (v_items v)) (unat (v_size v))))
      then Inl AssertFailed
      else
        let new_pos = pos;
            new_capacity =
              (if v_size v = v_capacity v then (if v_size v = 0 then 1 else v_capacity v * 2)
               else v_capacity v)
        in
        then_do (ArrayPtr_new E new_capacity m) (\<lambda>(new_items, m).
          let index = std_distance (Get (v_items v)) new_pos in
          then_do (std_copy (Get (v_items v)) new_pos (Get new_items) m) (\<lambda>m.
          then_do (store (subscript new_items index) val m) (\<lambda>m.
          then_do (std_copy_backward new_pos (ptr_add (Get (v_items v)) (unat (v_size v)))
                     (ptr_add (Get new_items) (unat (v_size v + 1))) m) (\<lambda>m.
          then_do (std_fill (ptr_add (Get new_items) (unat (v_size v + 1)))
                     (ptr_add (Get new_items) (unat new_capacity)) (Type_default E) m) (\<lambda>m.
            let (items, new_items) = ArrayPtr_swap (v_items v) new_items;
                v = v\<lparr>v_items := items, v_size := v_size v + 1, v_capacity := new_capacity\<rparr>
            in Inr (subscript (v_items v) index, v, ArrayPtr_release new_items m)))))))"

definition PopBack :: "SimpleVector \<Rightarrow> error + SimpleVector" where
  "PopBack v = (if IsEmpty v then Inl AssertFailed else Inr (v\<lparr>v_size := v_size v - 1\<rparr>))"

definition Erase ::
  "'a env \<Rightarrow> ptr \<Rightarrow> SimpleVector \<Rightarrow> 'a memory \<Rightarrow> error + (ptr \<times> SimpleVector \<times> 'a memory)" where
  "Erase E pos v m =
     (if IsEmpty v then Inl AssertFailed
      else if \<not> (ptr_le (Get (v_items v)) pos \<and>
                  ptr_le pos (ptr_add (Get (v_items v)) (unat (v_size v))))
      then Inl AssertFailed
      else
        let new_pos = pos;
            index = std_distance (Get (v_items v)) new_pos
        in
        then_do (std_move E (ptr_add new_pos 1) (ptr_add (Get (v_items v)) (unat (v_size v)))
                   new_pos m) (\<lambda>m.
          let v = v\<lparr>v_size := v_size v - 1\<rparr>
          in Inr (subscript (v_items v) index, v, m)))"

text \<open>
  \<^verbatim>\<open>swap(SimpleVector& other)\<close>: the new \<open>this\<close> and the new \<open>other\<close>.  The overloads
  \<^verbatim>\<open>swap(SimpleVector&&)\<close> and \<^verbatim>\<open>Insert(ConstIterator, Type&&)\<close> assign one owner to another
  that already holds a block, which the spec does not describe; they are left out.  Neither
  has a \<^verbatim>\<open>throw\<close> of its own.
\<close>

definition swap_vec :: "SimpleVector \<Rightarrow> SimpleVector \<Rightarrow> SimpleVector \<times> SimpleVector" where
  "swap_vec this other =
     (let (items_this, items_other) = ArrayPtr_swap (v_items this) (v_items other);
          (size_this, size_other) = (v_size other, v_size this);
          (capacity_this, capacity_other) = (v_capacity other, v_capacity this)
      in (this\<lparr>v_items := items_this, v_size := size_this, v_capacity := capacity_this\<rparr>,
          other\<lparr>v_items := items_other, v_size := size_other, v_capacity := capacity_other\<rparr>))"

subsection \<open>Constructors and the destructor\<close>

text \<open>The default member initialisers: no elements, no capacity, no block.\<close>

definition SimpleVector_default :: SimpleVector where
  "SimpleVector_default = \<lparr>v_size = 0, v_capacity = 0, v_items = None\<rparr>"

text \<open>
  \<^verbatim>\<open>SimpleVector(size_t size, const Type& value)\<close>: the argument is read by \<^verbatim>\<open>std::fill\<close> when
  only the new block has been written to, so \<open>val\<close> is the value it referred to when the call
  was made.
\<close>

definition SimpleVector_fill ::
  "'a env \<Rightarrow> size_t \<Rightarrow> 'a \<Rightarrow> 'a memory \<Rightarrow> error + (SimpleVector \<times> 'a memory)" where
  "SimpleVector_fill E sz val m =
     then_do (ArrayPtr_new E sz m) (\<lambda>(items, m).
     then_do (std_fill (Get items) (ptr_add (Get items) (unat sz)) val m) (\<lambda>m.
       Inr (\<lparr>v_size = sz, v_capacity = sz, v_items = items\<rparr>, m)))"

definition SimpleVector_sized ::
  "'a env \<Rightarrow> size_t \<Rightarrow> 'a memory \<Rightarrow> error + (SimpleVector \<times> 'a memory)" where
  "SimpleVector_sized E sz m = SimpleVector_fill E sz (Type_default E) m"

datatype ReserveProxyObj = ReserveProxyObj (proxy_size: size_t)

definition Reserve_proxy :: "size_t \<Rightarrow> ReserveProxyObj" where
  "Reserve_proxy capacity_to_reserve = ReserveProxyObj capacity_to_reserve"

definition SimpleVector_reserved ::
  "'a env \<Rightarrow> ReserveProxyObj \<Rightarrow> 'a memory \<Rightarrow> error + (SimpleVector \<times> 'a memory)" where
  "SimpleVector_reserved E obj m = Reserve E (proxy_size obj) SimpleVector_default m"

definition SimpleVector_init ::
  "'a env \<Rightarrow> 'a list \<Rightarrow> 'a memory \<Rightarrow> error + (SimpleVector \<times> 'a memory)" where
  "SimpleVector_init E init m =
     then_do (ArrayPtr_new E (of_nat (length init)) m) (\<lambda>(items, m).
     then_do (copy_init init (Get items) m) (\<lambda>m.
       Inr (\<lparr>v_size = of_nat (length init), v_capacity = of_nat (length init), v_items = items\<rparr>, m)))"

definition SimpleVector_copy ::
  "'a env \<Rightarrow> SimpleVector \<Rightarrow> 'a memory \<Rightarrow> error + (SimpleVector \<times> 'a memory)" where
  "SimpleVector_copy E other m =
     (let this = SimpleVector_default in
      if v_size this \<noteq> 0 then Inl AssertFailed
      else
        then_do (ArrayPtr_new E (v_capacity other) m) (\<lambda>(items, m).
        then_do (if \<not> IsEmpty other then std_copy (v_begin other) (v_end other) (Get items) m
                 else Inr m) (\<lambda>m.
          let (items_this, items) = ArrayPtr_swap (v_items this) items in
          Inr (this\<lparr>v_items := items_this, v_size := v_size other, v_capacity := v_capacity other\<rparr>,
               ArrayPtr_release items m))))"

text \<open>The move constructor: the new object and what is left of \<open>other\<close>.\<close>

definition SimpleVector_move :: "SimpleVector \<Rightarrow> error + (SimpleVector \<times> SimpleVector)" where
  "SimpleVector_move other =
     (let this = SimpleVector_default in
      if v_size this \<noteq> 0 then Inl AssertFailed
      else
        let (size_this, size_other) = (v_size other, 0);
            (capacity_this, capacity_other) = (v_capacity other, 0);
            (items_this, items_other) = ArrayPtr_move_assign (v_items other)
        in Inr (this\<lparr>v_size := size_this, v_capacity := capacity_this, v_items := items_this\<rparr>,
                other\<lparr>v_size := size_other, v_capacity := capacity_other,
                  v_items := items_other\<rparr>))"

text \<open>The implicit destructor: the owner releases the block.\<close>

definition destroy :: "SimpleVector \<Rightarrow> 'a memory \<Rightarrow> 'a memory" where
  "destroy v m = ArrayPtr_release (v_items v) m"

subsection \<open>Objects with identity: the assignment operators\<close>

text \<open>
  Both assignment operators compare the addresses of their two operands, so the vectors are
  objects at addresses of their own.  A world is the objects and the store of blocks.
\<close>

record 'a world =
  objs :: "nat \<Rightarrow> SimpleVector"
  heap :: "'a memory"

definition copy_assign :: "'a env \<Rightarrow> nat \<Rightarrow> nat \<Rightarrow> 'a world \<Rightarrow> error + 'a world" where
  "copy_assign E this rhs w =
     (if this \<noteq> rhs then
        then_do (SimpleVector_copy E (objs w rhs) (heap w)) (\<lambda>(copy_vector, m).
          let (this_v, copy_vector) = swap_vec (objs w this) copy_vector in
          Inr (w\<lparr>objs := (objs w)(this := this_v), heap := destroy copy_vector m\<rparr>))
      else Inr w)"

definition move_assign :: "nat \<Rightarrow> nat \<Rightarrow> 'a world \<Rightarrow> 'a world" where
  "move_assign this rhs w =
     (if this \<noteq> rhs then
        let (this_v, rhs_v) = swap_vec (objs w this) (objs w rhs) in
        w\<lparr>objs := (objs w)(this := this_v, rhs := rhs_v)\<rparr>
      else w)"

text \<open>Constructing the object at \<open>this\<close> from the object at \<open>other\<close>.\<close>

definition construct_copy :: "'a env \<Rightarrow> nat \<Rightarrow> nat \<Rightarrow> 'a world \<Rightarrow> error + 'a world" where
  "construct_copy E this other w =
     then_do (SimpleVector_copy E (objs w other) (heap w)) (\<lambda>(v, m).
       Inr (w\<lparr>objs := (objs w)(this := v), heap := m\<rparr>))"

definition construct_move :: "nat \<Rightarrow> nat \<Rightarrow> 'a world \<Rightarrow> error + 'a world" where
  "construct_move this other w =
     then_do (SimpleVector_move (objs w other)) (\<lambda>(this_v, other_v).
       Inr (w\<lparr>objs := (objs w)(other := other_v, this := this_v)\<rparr>))"

subsection \<open>Comparison operators\<close>

definition operator_eq :: "SimpleVector \<Rightarrow> SimpleVector \<Rightarrow> 'a memory \<Rightarrow> error + bool" where
  "operator_eq lhs rhs m = std_equal (v_begin lhs) (v_end lhs) (v_begin rhs) (v_end rhs) m"

definition operator_ne :: "SimpleVector \<Rightarrow> SimpleVector \<Rightarrow> 'a memory \<Rightarrow> error + bool" where
  "operator_ne lhs rhs m = then_do (operator_eq lhs rhs m) (\<lambda>b. Inr (\<not> b))"

definition operator_lt ::
  "SimpleVector \<Rightarrow> SimpleVector \<Rightarrow> ('a::linorder) memory \<Rightarrow> error + bool" where
  "operator_lt lhs rhs m =
     std_lexicographical_compare (v_begin lhs) (v_end lhs) (v_begin rhs) (v_end rhs) m"

definition operator_le ::
  "SimpleVector \<Rightarrow> SimpleVector \<Rightarrow> ('a::linorder) memory \<Rightarrow> error + bool" where
  "operator_le lhs rhs m = then_do (operator_lt rhs lhs m) (\<lambda>b. Inr (\<not> b))"

definition operator_gt ::
  "SimpleVector \<Rightarrow> SimpleVector \<Rightarrow> ('a::linorder) memory \<Rightarrow> error + bool" where
  "operator_gt lhs rhs m = operator_lt rhs lhs m"

definition operator_ge ::
  "SimpleVector \<Rightarrow> SimpleVector \<Rightarrow> ('a::linorder) memory \<Rightarrow> error + bool" where
  "operator_ge lhs rhs m = then_do (operator_lt lhs rhs m) (\<lambda>b. Inr (\<not> b))"

section \<open>Notions for stating the properties\<close>

text \<open>
  \<open>overwrite dst k xs\<close> is the block \<open>dst\<close> with the values \<open>xs\<close> written from offset \<open>k\<close> on;
  \<open>shift_left E blk i l\<close> is the block \<open>blk\<close> after the slots \<open>i + 1\<close> to \<open>l - 1\<close> were moved one
  slot down, the last of them left moved-from.
\<close>

definition overwrite :: "'a list \<Rightarrow> nat \<Rightarrow> 'a list \<Rightarrow> 'a list" where
  "overwrite dst k xs = take k dst @ xs @ drop (k + length xs) dst"

definition shift_left :: "'a env \<Rightarrow> 'a list \<Rightarrow> nat \<Rightarrow> nat \<Rightarrow> 'a list" where
  "shift_left E blk i l =
     (if Suc i < l
      then take i blk @ take (l - Suc i) (drop (Suc i) blk) @ [moved_from E (blk ! (l - 1))] @ drop l blk
      else blk)"

text \<open>
  The slots of a vector are the contents of its block, its elements the first \<open>size\<close> of
  them.  A vector is well formed in a store when its size is at most its capacity, its
  block is live and has exactly \<open>capacity\<close> slots (no block when the capacity is 0), and the
  capacity is below \<open>2 ^ 63\<close>, so that doubling it does not wrap.  The bound comes from the
  platform: \<open>env_ok\<close> says that no block of \<open>2 ^ 63\<close> or more slots can be obtained.
\<close>

definition slots :: "SimpleVector \<Rightarrow> 'a memory \<Rightarrow> 'a list" where
  "slots v m =
     (case v_items v of
        None \<Rightarrow> []
      | Some a \<Rightarrow> (case blocks m a of None \<Rightarrow> [] | Some blk \<Rightarrow> blk))"

definition elems :: "SimpleVector \<Rightarrow> 'a memory \<Rightarrow> 'a list" where
  "elems v m = take (unat (v_size v)) (slots v m)"

definition wf :: "SimpleVector \<Rightarrow> 'a memory \<Rightarrow> bool" where
  "wf v m =
     (v_size v \<le> v_capacity v \<and> unat (v_capacity v) < 2 ^ 63 \<and>
      (case v_items v of
         None \<Rightarrow> v_capacity v = 0
       | Some a \<Rightarrow>
           a < fresh m \<and>
           (case blocks m a of None \<Rightarrow> False | Some blk \<Rightarrow> length blk = unat (v_capacity v))))"

definition env_ok :: "'a env \<Rightarrow> bool" where
  "env_ok E = (\<forall>n. obtainable E n \<longrightarrow> n < 2 ^ 63)"

text \<open>
  A small concrete state: three \<^verbatim>\<open>int\<close> vectors, holding 1, 2, 3 in a block of four slots,
  1, 2, 4 in a block of three, and 1, 2 in a block of two.
\<close>

definition ex_env :: "int env" where
  "ex_env = \<lparr>Type_default = 0, moved_from = (\<lambda>x. x), obtainable = (\<lambda>n. n < 2 ^ 63)\<rparr>"

definition ex_mem :: "int memory" where
  "ex_mem =
     \<lparr>blocks = (\<lambda>a. if a = 0 then Some [1, 2, 3, 0]
                     else if a = 1 then Some [1, 2, 4]
                     else if a = 2 then Some [1, 2]
                     else None),
      fresh = 3\<rparr>"

definition ex_vec :: SimpleVector where
  "ex_vec = \<lparr>v_size = 3, v_capacity = 4, v_items = Some 0\<rparr>"

definition ex_vec_124 :: SimpleVector where
  "ex_vec_124 = \<lparr>v_size = 3, v_capacity = 3, v_items = Some 1\<rparr>"

definition ex_vec_12 :: SimpleVector where
  "ex_vec_12 = \<lparr>v_size = 2, v_capacity = 2, v_items = Some 2\<rparr>"

text \<open>
  Two shapes of store that the operations leave behind: the vector's own block rewritten in
  place, and the vector moved into a new block while its old one is released.
\<close>

definition write_slots :: "SimpleVector \<Rightarrow> 'a list \<Rightarrow> 'a memory \<Rightarrow> 'a memory" where
  "write_slots v xs m =
     (case v_items v of None \<Rightarrow> m | Some a \<Rightarrow> m\<lparr>blocks := (blocks m)(a \<mapsto> xs)\<rparr>)"

definition adopt :: "SimpleVector \<Rightarrow> 'a list \<Rightarrow> 'a memory \<Rightarrow> 'a memory" where
  "adopt v xs m =
     ArrayPtr_release (v_items v)
       (m\<lparr>blocks := (blocks m)(fresh m \<mapsto> xs), fresh := Suc (fresh m)\<rparr>)"

text \<open>A sequence of \<^verbatim>\<open>PushBack\<close> calls, stopping at the first failure.\<close>

fun push_all ::
  "'a env \<Rightarrow> 'a ref list \<Rightarrow> SimpleVector \<Rightarrow> 'a memory \<Rightarrow> error + (SimpleVector \<times> 'a memory)" where
  "push_all E [] v m = Inr (v, m)"
| "push_all E (r # rs) v m = then_do (PushBack E r v m) (\<lambda>(v, m). push_all E rs v m)"

text \<open>
  The capacity that the growth policy gives after \<open>n\<close> appends to an empty vector: an append
  that finds the vector full makes the capacity 1 if it was 0 and doubles it otherwise.
\<close>

primrec doubling :: "nat \<Rightarrow> nat" where
  "doubling 0 = 0"
| "doubling (Suc n) =
     (if n = doubling n then (if doubling n = 0 then 1 else 2 * doubling n) else doubling n)"

text \<open>
  What a member function called on one vector may do to the store: the vector stays well
  formed, it keeps its block or moves to a block that did not exist before, and every other
  block that existed stays as it was.
\<close>

definition frame :: "SimpleVector \<Rightarrow> 'a memory \<Rightarrow> SimpleVector \<Rightarrow> 'a memory \<Rightarrow> bool" where
  "frame v m v' m' =
     (wf v' m' \<and> fresh m \<le> fresh m' \<and>
      (v_items v' = v_items v \<or> v_items v' = Some (fresh m)) \<and>
      (\<forall>a. a < fresh m \<longrightarrow> Some a \<noteq> v_items v \<longrightarrow> blocks m' a = blocks m a))"

text \<open>The calls by which a program changes a vector it holds.\<close>

datatype 'a mutation =
    MPushBack "'a ref"
  | MPopBack
  | MInsert nat 'a
  | MErase nat
  | MResize size_t
  | MReserve size_t
  | MClear
  | MAssign size_t 'a

fun mutate ::
  "'a env \<Rightarrow> 'a mutation \<Rightarrow> SimpleVector \<Rightarrow> 'a memory \<Rightarrow> error + (SimpleVector \<times> 'a memory)" where
  "mutate E (MPushBack r) v m = PushBack E r v m"
| "mutate E MPopBack v m = then_do (PopBack v) (\<lambda>v. Inr (v, m))"
| "mutate E (MInsert i x) v m =
     then_do (Insert E (ptr_add (v_begin v) i) x v m) (\<lambda>(p, v, m). Inr (v, m))"
| "mutate E (MErase i) v m =
     then_do (Erase E (ptr_add (v_begin v) i) v m) (\<lambda>(p, v, m). Inr (v, m))"
| "mutate E (MResize n) v m = Resize E n v m"
| "mutate E (MReserve n) v m = Reserve E n v m"
| "mutate E MClear v m = Inr (Clear v, m)"
| "mutate E (MAssign i x) v m = then_do (At i v) (\<lambda>p. then_do (store p x m) (\<lambda>m. Inr (v, m)))"

text \<open>
  A world is in order when every object is a well-formed vector and no block has two owners
  (invariant I3 of the spec).  Object addresses that hold no vector of the program hold the
  empty vector.
\<close>

definition world_ok :: "'a world \<Rightarrow> bool" where
  "world_ok w =
     ((\<forall>i. wf (objs w i) (heap w)) \<and>
      (\<forall>i j. i \<noteq> j \<longrightarrow> v_items (objs w i) \<noteq> None \<longrightarrow>
               v_items (objs w i) \<noteq> v_items (objs w j)))"

definition mutate_obj :: "'a env \<Rightarrow> nat \<Rightarrow> 'a mutation \<Rightarrow> 'a world \<Rightarrow> error + 'a world" where
  "mutate_obj E this mu w =
     then_do (mutate E mu (objs w this) (heap w)) (\<lambda>(v, m).
       Inr (w\<lparr>objs := (objs w)(this := v), heap := m\<rparr>))"

fun mutate_all :: "'a env \<Rightarrow> nat \<Rightarrow> 'a mutation list \<Rightarrow> 'a world \<Rightarrow> error + 'a world" where
  "mutate_all E this [] w = Inr w"
| "mutate_all E this (mu # mus) w = then_do (mutate_obj E this mu w) (mutate_all E this mus)"

text \<open>The three example vectors as objects 0, 1 and 2.\<close>

definition ex_world :: "int world" where
  "ex_world =
     \<lparr>objs = (\<lambda>i. if i = 0 then ex_vec
                   else if i = 1 then ex_vec_124
                   else if i = 2 then ex_vec_12
                   else SimpleVector_default),
      heap = ex_mem\<rparr>"

text \<open>
  Invariant I2 of the spec: every slot from the size up to the capacity holds the default
  value or the value that a move leaves behind.
\<close>

definition vacant :: "'a env \<Rightarrow> 'a \<Rightarrow> bool" where
  "vacant E x = (x = Type_default E \<or> (\<exists>y. x = moved_from E y))"






text \<open>
  A vector of strings, whose moved-from value is the empty string: the state after
  \<^verbatim>\<open>PushBack("ab")\<close> on an empty vector in an empty store.
\<close>

definition ex_env_s :: "string env" where
  "ex_env_s = \<lparr>Type_default = [], moved_from = (\<lambda>x. []), obtainable = (\<lambda>n. n < 2 ^ 63)\<rparr>"

definition ex_mem_empty :: "string memory" where
  "ex_mem_empty = \<lparr>blocks = (\<lambda>a. None), fresh = 0\<rparr>"

definition ex_mem_s :: "string memory" where
  "ex_mem_s = \<lparr>blocks = (\<lambda>a. if a = 0 then Some [''ab''] else None), fresh = 1\<rparr>"

definition ex_vec_s :: SimpleVector where
  "ex_vec_s = \<lparr>v_size = 1, v_capacity = 1, v_items = Some 0\<rparr>"


section \<open>The algorithms on blocks\<close>

declare std_copy.simps [simp del] std_move.simps [simp del] std_copy_backward.simps [simp del]
  std_fill.simps [simp del] std_generate.simps [simp del] equal_loop.simps [simp del]
  std_lexicographical_compare.simps [simp del]

lemma std_copy_empty [simp]: "std_copy p p d m = Inr m"
  by (subst std_copy.simps) simp

lemma std_move_empty [simp]: "std_move E p p d m = Inr m"
  by (subst std_move.simps) simp

lemma std_copy_backward_empty [simp]: "std_copy_backward p p d m = Inr m"
  by (subst std_copy_backward.simps) simp

lemma std_fill_empty [simp]: "std_fill p p x m = Inr m"
  by (subst std_fill.simps) simp

lemma std_generate_empty [simp]: "std_generate p p x m = Inr m"
  by (subst std_generate.simps) simp

lemma then_do_Inr [simp]: "then_do (Inr x) f = f x"
  by (simp add: then_do_def)

lemma then_do_Inl [simp]: "then_do (Inl e) f = Inl e"
  by (simp add: then_do_def)

lemma load_block:
  "blocks m a = Some blk \<Longrightarrow> i < length blk \<Longrightarrow> load (Ptr (Some a) i) m = Inr (blk ! i)"
  by (simp add: load_def)

lemma store_block:
  "blocks m a = Some blk \<Longrightarrow> i < length blk \<Longrightarrow>
   store (Ptr (Some a) i) x m = Inr (m\<lparr>blocks := (blocks m)(a \<mapsto> blk[i := x])\<rparr>)"
  by (simp add: store_def)

lemma length_overwrite [simp]:
  "k + length xs \<le> length dst \<Longrightarrow> length (overwrite dst k xs) = length dst"
  by (simp add: overwrite_def)

lemma overwrite_Nil [simp]: "overwrite dst k [] = dst"
  by (simp add: overwrite_def)

lemma overwrite_Cons:
  "k < length dst \<Longrightarrow> overwrite (dst[k := x]) (Suc k) xs = overwrite dst k (x # xs)"
  by (simp add: overwrite_def take_Suc_conv_app_nth)

lemma overwrite_snoc:
  "k < length dst \<Longrightarrow> length xs \<le> k \<Longrightarrow> 
   overwrite (dst[k := x]) (k - length xs) xs = overwrite dst (k - length xs) (xs @ [x])"
  by (simp add: overwrite_def upd_conv_take_nth_drop min_def)

lemma blocks_upd_same: "F = blocks m \<Longrightarrow> m\<lparr>blocks := F\<rparr> = m"
  by simp

lemma replicate_diff_step: "f < l \<Longrightarrow> replicate (l - f) x = x # replicate (l - Suc f) x"
  by (metis Suc_diff_Suc replicate_Suc)

lemma take_drop_step:
  "f < l \<Longrightarrow> l \<le> length src \<Longrightarrow> take (l - f) (drop f src) = src ! f # take (l - Suc f) (drop (Suc f) src)"
  by (metis Cons_nth_drop_Suc Suc_diff_Suc less_le_trans take_Suc_Cons)

lemma std_copy_blocks:
  "blocks m a = Some src \<Longrightarrow> blocks m b = Some dst \<Longrightarrow> a \<noteq> b \<Longrightarrow> f \<le> l \<Longrightarrow>
   l \<le> length src \<Longrightarrow> k + (l - f) \<le> length dst \<Longrightarrow>
   std_copy (Ptr (Some a) f) (Ptr (Some a) l) (Ptr (Some b) k) m =
     Inr (m\<lparr>blocks := (blocks m)(b \<mapsto> overwrite dst k (take (l - f) (drop f src)))\<rparr>)"
proof (induction "l - f" arbitrary: f k dst m)
  case 0
  then have "(blocks m)(b \<mapsto> dst) = blocks m" by (simp add: map_upd_triv)
  with 0 show ?case by simp
next
  case (Suc n)
  from Suc.hyps(2) have fl: "f < l" by simp
  let ?m = "m\<lparr>blocks := (blocks m)(b \<mapsto> dst[k := src ! f])\<rparr>"
  have st: "std_copy (Ptr (Some a) f) (Ptr (Some a) l) (Ptr (Some b) k) m =
            std_copy (Ptr (Some a) (Suc f)) (Ptr (Some a) l) (Ptr (Some b) (Suc k)) ?m"
    using Suc.prems fl
    by (subst std_copy.simps) (simp add: load_block store_block ptr_add_def)
  have "std_copy (Ptr (Some a) (Suc f)) (Ptr (Some a) l) (Ptr (Some b) (Suc k)) ?m =
        Inr (?m\<lparr>blocks := (blocks ?m)(b \<mapsto>
               overwrite (dst[k := src ! f]) (Suc k) (take (l - Suc f) (drop (Suc f) src)))\<rparr>)"
    using Suc.prems Suc.hyps(2) fl by (intro Suc.hyps(1)) auto
  with st show ?case
    using Suc.prems fl by (simp add: overwrite_Cons take_drop_step)
qed

lemma std_move_blocks:
  "blocks m a = Some src \<Longrightarrow> blocks m b = Some dst \<Longrightarrow> a \<noteq> b \<Longrightarrow> f \<le> l \<Longrightarrow>
   l \<le> length src \<Longrightarrow> k + (l - f) \<le> length dst \<Longrightarrow>
   std_move E (Ptr (Some a) f) (Ptr (Some a) l) (Ptr (Some b) k) m =
     Inr (m\<lparr>blocks := (blocks m)(b \<mapsto> overwrite dst k (take (l - f) (drop f src)),
                                  a \<mapsto> overwrite src f (map (moved_from E) (take (l - f) (drop f src))))\<rparr>)"
proof (induction "l - f" arbitrary: f k src dst m)
  case 0
  then have "m\<lparr>blocks := (blocks m)(b \<mapsto> dst, a \<mapsto> src)\<rparr> = m"
    by (intro blocks_upd_same) (auto simp: fun_eq_iff)
  with 0 show ?case by (simp del: fun_upd_apply)
next
  case (Suc n)
  from Suc.hyps(2) have fl: "f < l" by simp
  let ?x = "src ! f"
  let ?m = "m\<lparr>blocks := (blocks m)(b \<mapsto> dst[k := ?x], a \<mapsto> src[f := moved_from E ?x])\<rparr>"
  have st: "std_move E (Ptr (Some a) f) (Ptr (Some a) l) (Ptr (Some b) k) m =
            std_move E (Ptr (Some a) (Suc f)) (Ptr (Some a) l) (Ptr (Some b) (Suc k)) ?m"
    using Suc.prems fl
    by (subst std_move.simps) (simp add: load_block store_block ptr_add_def)
  have "std_move E (Ptr (Some a) (Suc f)) (Ptr (Some a) l) (Ptr (Some b) (Suc k)) ?m =
        Inr (?m\<lparr>blocks := (blocks ?m)(b \<mapsto>
               overwrite (dst[k := ?x]) (Suc k)
                 (take (l - Suc f) (drop (Suc f) (src[f := moved_from E ?x]))),
             a \<mapsto> overwrite (src[f := moved_from E ?x]) (Suc f)
                 (map (moved_from E) (take (l - Suc f) (drop (Suc f) (src[f := moved_from E ?x])))))\<rparr>)"
    using Suc.prems Suc.hyps(2) fl by (intro Suc.hyps(1)) auto
  with st show ?case
    using Suc.prems fl by (simp add: overwrite_Cons take_drop_step fun_upd_twist)
qed

lemma update_twice:
  assumes "Suc i < length blk"
  shows "blk[i := x, Suc i := y] = take i blk @ [x, y] @ drop (Suc (Suc i)) blk"
proof -
  have a: "blk[i := x] = take i blk @ x # drop (Suc i) blk"
    using assms by (simp add: upd_conv_take_nth_drop)
  have b: "drop (Suc i) blk = blk ! Suc i # drop (Suc (Suc i)) blk"
    using assms by (simp add: Cons_nth_drop_Suc)
  have "blk[i := x, Suc i := y] = (take i blk @ x # drop (Suc i) blk)[Suc i := y]"
    by (simp only: a)
  also have "\<dots> = take i blk @ (x # drop (Suc i) blk)[1 := y]"
    using assms by (simp add: list_update_append)
  also have "\<dots> = take i blk @ x # (drop (Suc i) blk)[0 := y]"
    by simp
  also have "\<dots> = take i blk @ [x, y] @ drop (Suc (Suc i)) blk"
    by (subst b) simp
  finally show ?thesis .
qed

lemma shift_left_step:
  assumes "Suc i < l" "l \<le> length blk"
  shows "shift_left E (blk[i := blk ! Suc i, Suc i := moved_from E (blk ! Suc i)]) (Suc i) l =
         shift_left E blk i l"
proof (cases "Suc (Suc i) < l")
  case True
  with assms show ?thesis
    by (simp add: shift_left_def take_Suc_conv_app_nth take_drop_step [of "Suc i" l blk])
next
  case False
  with assms have l: "l = Suc (Suc i)" by simp
  have "drop (Suc i) blk = blk ! Suc i # drop (Suc (Suc i)) blk"
    using assms by (simp add: Cons_nth_drop_Suc)
  with assms l show ?thesis
    by (simp add: shift_left_def update_twice)
qed

lemma std_move_left:
  "blocks m a = Some blk \<Longrightarrow> Suc i \<le> l \<Longrightarrow> l \<le> length blk \<Longrightarrow>
   std_move E (Ptr (Some a) (Suc i)) (Ptr (Some a) l) (Ptr (Some a) i) m =
     Inr (m\<lparr>blocks := (blocks m)(a \<mapsto> shift_left E blk i l)\<rparr>)"
proof (induction "l - Suc i" arbitrary: i blk m)
  case 0
  then have "(blocks m)(a \<mapsto> blk) = blocks m" by (auto simp: fun_eq_iff)
  with 0 show ?case by (simp add: shift_left_def)
next
  case (Suc n)
  from Suc.hyps(2) have il: "Suc i < l" by simp
  let ?x = "blk ! Suc i"
  let ?blk = "blk[i := ?x, Suc i := moved_from E ?x]"
  let ?m = "m\<lparr>blocks := (blocks m)(a \<mapsto> ?blk)\<rparr>"
  have st: "std_move E (Ptr (Some a) (Suc i)) (Ptr (Some a) l) (Ptr (Some a) i) m =
            std_move E (Ptr (Some a) (Suc (Suc i))) (Ptr (Some a) l) (Ptr (Some a) (Suc i)) ?m"
    using Suc.prems il
    by (subst std_move.simps) (simp add: load_block store_block ptr_add_def)
  have "std_move E (Ptr (Some a) (Suc (Suc i))) (Ptr (Some a) l) (Ptr (Some a) (Suc i)) ?m =
        Inr (?m\<lparr>blocks := (blocks ?m)(a \<mapsto> shift_left E ?blk (Suc i) l)\<rparr>)"
    using Suc.prems Suc.hyps(2) il by (intro Suc.hyps(1)) auto
  with st show ?case
    using Suc.prems il by (simp add: shift_left_step)
qed

lemma std_fill_block:
  "blocks m a = Some blk \<Longrightarrow> f \<le> l \<Longrightarrow> l \<le> length blk \<Longrightarrow>
   std_fill (Ptr (Some a) f) (Ptr (Some a) l) x m =
     Inr (m\<lparr>blocks := (blocks m)(a \<mapsto> overwrite blk f (replicate (l - f) x))\<rparr>)"
proof (induction "l - f" arbitrary: f blk m)
  case 0
  then have "(blocks m)(a \<mapsto> blk) = blocks m" by (auto simp: fun_eq_iff)
  with 0 show ?case by simp
next
  case (Suc n)
  from Suc.hyps(2) have fl: "f < l" by simp
  let ?m = "m\<lparr>blocks := (blocks m)(a \<mapsto> blk[f := x])\<rparr>"
  have st: "std_fill (Ptr (Some a) f) (Ptr (Some a) l) x m =
            std_fill (Ptr (Some a) (Suc f)) (Ptr (Some a) l) x ?m"
    using Suc.prems fl
    by (subst std_fill.simps) (simp add: store_block ptr_add_def)
  have "std_fill (Ptr (Some a) (Suc f)) (Ptr (Some a) l) x ?m =
        Inr (?m\<lparr>blocks := (blocks ?m)(a \<mapsto> overwrite (blk[f := x]) (Suc f) (replicate (l - Suc f) x))\<rparr>)"
    using Suc.prems Suc.hyps(2) fl by (intro Suc.hyps(1)) auto
  moreover have "replicate (l - f) x = x # replicate (l - Suc f) x"
    using fl by (rule replicate_diff_step)
  ultimately show ?case
    using st Suc.prems fl by (simp add: overwrite_Cons)
qed

lemma std_generate_block:
  "blocks m a = Some blk \<Longrightarrow> f \<le> l \<Longrightarrow> l \<le> length blk \<Longrightarrow>
   std_generate (Ptr (Some a) f) (Ptr (Some a) l) x m =
     Inr (m\<lparr>blocks := (blocks m)(a \<mapsto> overwrite blk f (replicate (l - f) x))\<rparr>)"
proof (induction "l - f" arbitrary: f blk m)
  case 0
  then have "(blocks m)(a \<mapsto> blk) = blocks m" by (auto simp: fun_eq_iff)
  with 0 show ?case by simp
next
  case (Suc n)
  from Suc.hyps(2) have fl: "f < l" by simp
  let ?m = "m\<lparr>blocks := (blocks m)(a \<mapsto> blk[f := x])\<rparr>"
  have st: "std_generate (Ptr (Some a) f) (Ptr (Some a) l) x m =
            std_generate (Ptr (Some a) (Suc f)) (Ptr (Some a) l) x ?m"
    using Suc.prems fl
    by (subst std_generate.simps) (simp add: store_block ptr_add_def)
  have "std_generate (Ptr (Some a) (Suc f)) (Ptr (Some a) l) x ?m =
        Inr (?m\<lparr>blocks := (blocks ?m)(a \<mapsto> overwrite (blk[f := x]) (Suc f) (replicate (l - Suc f) x))\<rparr>)"
    using Suc.prems Suc.hyps(2) fl by (intro Suc.hyps(1)) auto
  moreover have "replicate (l - f) x = x # replicate (l - Suc f) x"
    using fl by (rule replicate_diff_step)
  ultimately show ?case
    using st Suc.prems fl by (simp add: overwrite_Cons)
qed

lemma take_drop_last:
  "f < l \<Longrightarrow> l \<le> length src \<Longrightarrow>
   take (l - f) (drop f src) = take (l - Suc f) (drop f src) @ [src ! (l - 1)]"
proof -
  assume a: "f < l" "l \<le> length src"
  then have "l - f = Suc (l - Suc f)" by simp
  moreover have "l - Suc f < length (drop f src)" using a by simp
  ultimately show ?thesis
    using a by (simp add: take_Suc_conv_app_nth)
qed

lemma std_copy_backward_blocks:
  "blocks m a = Some src \<Longrightarrow> blocks m b = Some dst \<Longrightarrow> a \<noteq> b \<Longrightarrow> f \<le> l \<Longrightarrow>
   l \<le> length src \<Longrightarrow> l - f \<le> k \<Longrightarrow> k \<le> length dst \<Longrightarrow>
   std_copy_backward (Ptr (Some a) f) (Ptr (Some a) l) (Ptr (Some b) k) m =
     Inr (m\<lparr>blocks := (blocks m)(b \<mapsto> overwrite dst (k - (l - f)) (take (l - f) (drop f src)))\<rparr>)"
proof (induction "l - f" arbitrary: l k dst m)
  case 0
  then have "(blocks m)(b \<mapsto> dst) = blocks m" by (auto simp: fun_eq_iff)
  with 0 show ?case by simp
next
  case (Suc n)
  from Suc.hyps(2) have fl: "f < l" by simp
  with Suc.prems have k: "0 < k" by simp
  let ?x = "src ! (l - 1)"
  let ?m = "m\<lparr>blocks := (blocks m)(b \<mapsto> dst[k - 1 := ?x])\<rparr>"
  let ?xs = "take (l - 1 - f) (drop f src)"
  have st: "std_copy_backward (Ptr (Some a) f) (Ptr (Some a) l) (Ptr (Some b) k) m =
            std_copy_backward (Ptr (Some a) f) (Ptr (Some a) (l - 1)) (Ptr (Some b) (k - 1)) ?m"
    using Suc.prems fl k
    by (subst std_copy_backward.simps) (simp add: load_block store_block)
  have ih: "std_copy_backward (Ptr (Some a) f) (Ptr (Some a) (l - 1)) (Ptr (Some b) (k - 1)) ?m =
        Inr (?m\<lparr>blocks := (blocks ?m)(b \<mapsto>
               overwrite (dst[k - 1 := ?x]) (k - 1 - (l - 1 - f)) ?xs)\<rparr>)"
    using Suc.prems Suc.hyps(2) fl k by (intro Suc.hyps(1)) auto
  have len: "length ?xs = l - 1 - f" using Suc.prems fl by simp
  have "overwrite (dst[k - 1 := ?x]) (k - 1 - length ?xs) ?xs =
        overwrite dst (k - 1 - length ?xs) (?xs @ [?x])"
    using Suc.prems fl k by (intro overwrite_snoc) (simp_all)
  moreover have "?xs @ [?x] = take (l - f) (drop f src)"
    using take_drop_last [of f l src] Suc.prems fl by simp
  moreover have "k - 1 - (l - 1 - f) = k - (l - f)" using Suc.prems fl by simp
  ultimately show ?case
    using st ih len by simp
qed


section \<open>Well-formed vectors and Reserve\<close>

lemma wf_size_le: "wf v m \<Longrightarrow> unat (v_size v) \<le> unat (v_capacity v)"
  by (simp add: wf_def word_le_nat_alt)

lemma wf_length_slots: "wf v m \<Longrightarrow> length (slots v m) = unat (v_capacity v)"
  by (auto simp: wf_def slots_def split: option.splits)

lemma wf_length_elems: "wf v m \<Longrightarrow> length (elems v m) = unat (v_size v)"
  by (simp add: elems_def wf_length_slots wf_size_le)

lemma wf_Some:
  "wf v m \<Longrightarrow> v_items v = Some a \<Longrightarrow>
   blocks m a = Some (slots v m) \<and> a < fresh m \<and> length (slots v m) = unat (v_capacity v)"
  by (auto simp: wf_def slots_def split: option.splits)

lemma wf_None: "wf v m \<Longrightarrow> v_items v = None \<Longrightarrow> v_capacity v = 0 \<and> v_size v = 0 \<and> slots v m = []"
  by (auto simp: wf_def slots_def)

lemma unat_double: "unat (c :: size_t) < 2 ^ 63 \<Longrightarrow> unat (c * 2) = 2 * unat c"
proof -
  assume "unat c < 2 ^ 63"
  then have "unat c * unat (2 :: size_t) < 2 ^ LENGTH(64)" by simp
  then have "unat (c * 2) = unat c * unat (2 :: size_t)" by (simp only: unat_mult_lem)
  then show ?thesis by simp
qed

lemma unat_succ: "(s :: size_t) < c \<Longrightarrow> unat (s + 1) = Suc (unat s)"
proof -
  assume "s < c"
  then have "unat s < unat c" by (simp add: word_less_nat_alt)
  moreover have "unat c < 2 ^ LENGTH(64)" by (rule unsigned_less)
  ultimately have "unat s + unat (1 :: size_t) < 2 ^ LENGTH(64)" by simp
  then have "unat (s + 1) = unat s + unat (1 :: size_t)" by (simp only: unat_add_lem)
  then show ?thesis by simp
qed

lemma Reserve_noop: "\<not> v_capacity v < n \<Longrightarrow> Reserve E n v m = Inr (v, m)"
  by (simp add: Reserve_def)

lemma Reserve_fail:
  "v_capacity v < n \<Longrightarrow> \<not> obtainable E (unat n) \<Longrightarrow> Reserve E n v m = Inl BadAlloc"
  by (simp add: Reserve_def ArrayPtr_new_def)

lemma Reserve_grow:
  assumes "wf v m" "v_capacity v < n" "obtainable E (unat n)"
  shows "Reserve E n v m =
           Inr (v\<lparr>v_items := Some (fresh m), v_capacity := n\<rparr>,
                ArrayPtr_release (v_items v)
                  (m\<lparr>blocks := (blocks m)(fresh m \<mapsto>
                         elems v m @ replicate (unat n - unat (v_size v)) (Type_default E)),
                     fresh := Suc (fresh m)\<rparr>))"
proof -
  let ?d = "Type_default E"
  let ?s = "unat (v_size v)"
  let ?b = "fresh m"
  let ?m1 = "m\<lparr>blocks := (blocks m)(?b \<mapsto> replicate (unat n) ?d), fresh := Suc ?b\<rparr>"
  have sn: "?s \<le> unat n"
    using assms wf_size_le [of v m] by (simp add: word_less_nat_alt)
  have new: "ArrayPtr_new E n m = Inr (Some ?b, ?m1)"
    using assms by (simp add: ArrayPtr_new_def)
  have ow: "overwrite (replicate (unat n) ?d) 0 xs = xs @ replicate (unat n - length xs) ?d"
    if "length xs \<le> unat n" for xs
    using that by (simp add: overwrite_def)
  have gen: "overwrite (xs @ replicate (unat n - length xs) ?d) (length xs)
               (replicate (unat n - length xs) ?d) = xs @ replicate (unat n - length xs) ?d"
    for xs :: "'a list"
    by (simp add: overwrite_def)
  show ?thesis
  proof (cases "v_items v")
    case None
    with assms have z: "v_size v = 0" "slots v m = []" by (simp_all add: wf_None)
    have "std_generate (Ptr (Some ?b) 0) (Ptr (Some ?b) (unat n)) ?d ?m1 =
          Inr (?m1\<lparr>blocks := (blocks ?m1)(?b \<mapsto> overwrite (replicate (unat n) ?d) 0 (replicate (unat n - 0) ?d))\<rparr>)"
      by (intro std_generate_block) simp_all
    with None z new assms show ?thesis
      by (simp add: Reserve_def Get_def ptr_add_def ArrayPtr_swap_def ArrayPtr_release_def
            elems_def overwrite_def del: fun_upd_apply)
  next
    case (Some a)
    with assms have a: "blocks m a = Some (slots v m)" "a < ?b" "length (slots v m) = unat (v_capacity v)"
      by (simp_all add: wf_Some)
    let ?xs = "elems v m"
    have len: "length ?xs = ?s" using assms by (simp add: wf_length_elems)
    have xs: "take (?s - 0) (drop 0 (slots v m)) = ?xs" by (simp add: elems_def)
    let ?m2 = "?m1\<lparr>blocks := (blocks ?m1)(?b \<mapsto> overwrite (replicate (unat n) ?d) 0 ?xs,
                 a \<mapsto> overwrite (slots v m) 0 (map (moved_from E) ?xs))\<rparr>"
    have "std_move E (Ptr (Some a) 0) (Ptr (Some a) ?s) (Ptr (Some ?b) 0) ?m1 =
          Inr (?m1\<lparr>blocks := (blocks ?m1)
                 (?b \<mapsto> overwrite (replicate (unat n) ?d) 0 (take (?s - 0) (drop 0 (slots v m))),
                  a \<mapsto> overwrite (slots v m) 0
                         (map (moved_from E) (take (?s - 0) (drop 0 (slots v m)))))\<rparr>)"
      using a assms sn wf_size_le [of v m] by (intro std_move_blocks) simp_all
    then have mv: "std_move E (Ptr (Some a) 0) (Ptr (Some a) ?s) (Ptr (Some ?b) 0) ?m1 = Inr ?m2"
      by (simp add: elems_def)
    have b2: "blocks ?m2 ?b = Some (?xs @ replicate (unat n - ?s) ?d)"
      using a sn len by (simp add: ow)
    have "std_generate (Ptr (Some ?b) ?s) (Ptr (Some ?b) (unat n)) ?d ?m2 =
          Inr (?m2\<lparr>blocks := (blocks ?m2)(?b \<mapsto>
                 overwrite (?xs @ replicate (unat n - ?s) ?d) ?s (replicate (unat n - ?s) ?d))\<rparr>)"
      using sn len by (intro std_generate_block b2) simp_all
    then have ge: "std_generate (Ptr (Some ?b) ?s) (Ptr (Some ?b) (unat n)) ?d ?m2 =
          Inr (?m2\<lparr>blocks := (blocks ?m2)(?b \<mapsto> ?xs @ replicate (unat n - ?s) ?d)\<rparr>)"
      using gen [of ?xs] len by simp
    have fin: "(?m2\<lparr>blocks := (blocks ?m2)(?b \<mapsto> ?xs @ replicate (unat n - ?s) ?d)\<rparr>)
                \<lparr>blocks := (blocks (?m2\<lparr>blocks := (blocks ?m2)(?b \<mapsto> ?xs @ replicate (unat n - ?s) ?d)\<rparr>))(a := None)\<rparr> =
               m\<lparr>blocks := ((blocks m)(?b \<mapsto> ?xs @ replicate (unat n - ?s) ?d))(a := None), fresh := Suc ?b\<rparr>"
      using a by (auto simp: fun_eq_iff)
    show ?thesis
      using Some assms new mv ge fin
      by (simp add: Reserve_def Get_def ptr_add_def ArrayPtr_swap_def ArrayPtr_release_def
            del: fun_upd_apply)
  qed
qed

section \<open>The example state; Reserve by cases\<close>

lemma env_ok_ex_env: "env_ok ex_env"
  by (simp add: env_ok_def ex_env_def)

lemma wf_ex_vec: "wf ex_vec ex_mem"
  by (simp add: wf_def ex_vec_def ex_mem_def)

lemma wf_ex_vec_124: "wf ex_vec_124 ex_mem"
  by (simp add: wf_def ex_vec_124_def ex_mem_def)

lemma wf_ex_vec_12: "wf ex_vec_12 ex_mem"
  by (simp add: wf_def ex_vec_12_def ex_mem_def)

lemma elems_ex_vec_124: "elems ex_vec_124 ex_mem = [1, 2, 4]"
  by (simp add: elems_def slots_def ex_vec_124_def ex_mem_def)

lemma elems_ex_vec_12: "elems ex_vec_12 ex_mem = [1, 2]"
  by (simp add: elems_def slots_def ex_vec_12_def ex_mem_def)

lemma slots_ex_vec: "slots ex_vec ex_mem = [1, 2, 3, 0]"
  by (simp add: slots_def ex_vec_def ex_mem_def)

lemma elems_ex_vec: "elems ex_vec ex_mem = [1, 2, 3]"
  by (simp add: elems_def slots_ex_vec) (simp add: ex_vec_def)

text \<open>
  C6.  \<^verbatim>\<open>Reserve(new_capacity)\<close> with \<open>new_capacity \<le> capacity\<close> returns the vector and the store
  as they were.  With \<open>new_capacity > capacity\<close> and a block to be had, the capacity becomes
  exactly \<open>new_capacity\<close>, the size and the present elements stay, and the slots from the
  size up to \<open>new_capacity\<close> hold the default value; when no block can be obtained the call
  fails with the allocation error.
\<close>

theorem Reserve_spec:
  assumes "wf v m"
  shows "(n \<le> v_capacity v \<longrightarrow> Reserve E n v m = Inr (v, m)) \<and>
         (v_capacity v < n \<longrightarrow> \<not> obtainable E (unat n) \<longrightarrow> Reserve E n v m = Inl BadAlloc) \<and>
         (v_capacity v < n \<longrightarrow> obtainable E (unat n) \<longrightarrow>
            (\<exists>v' m'. Reserve E n v m = Inr (v', m') \<and>
               v_capacity v' = n \<and> v_size v' = v_size v \<and> elems v' m' = elems v m \<and>
               length (slots v' m') = unat n \<and>
               drop (unat (v_size v)) (slots v' m') =
                 replicate (unat n - unat (v_size v)) (Type_default E)))"
proof (intro conjI impI)
  assume "n \<le> v_capacity v"
  then show "Reserve E n v m = Inr (v, m)" by (simp add: Reserve_noop)
next
  assume "v_capacity v < n" "\<not> obtainable E (unat n)"
  then show "Reserve E n v m = Inl BadAlloc" by (rule Reserve_fail)
next
  assume n: "v_capacity v < n" "obtainable E (unat n)"
  let ?v = "v\<lparr>v_items := Some (fresh m), v_capacity := n\<rparr>"
  let ?new = "elems v m @ replicate (unat n - unat (v_size v)) (Type_default E)"
  let ?m = "ArrayPtr_release (v_items v)
              (m\<lparr>blocks := (blocks m)(fresh m \<mapsto> ?new), fresh := Suc (fresh m)\<rparr>)"
  have r: "Reserve E n v m = Inr (?v, ?m)"
    using assms n by (rule Reserve_grow)
  have sl: "slots ?v ?m = ?new"
    using assms by (auto simp: slots_def ArrayPtr_release_def wf_def split: option.splits)
  have len: "length (elems v m) = unat (v_size v)"
    using assms by (rule wf_length_elems)
  have sn: "unat (v_size v) \<le> unat n"
    using assms n wf_size_le [of v m] by (simp add: word_less_nat_alt)
  have "elems ?v ?m = elems v m"
    using len by (simp add: elems_def [of ?v] sl)
  moreover have "length (slots ?v ?m) = unat n"
    using len sn by (simp add: sl)
  moreover have "drop (unat (v_size v)) (slots ?v ?m) =
                 replicate (unat n - unat (v_size v)) (Type_default E)"
    using len by (simp add: sl)
  ultimately show "\<exists>v' m'. Reserve E n v m = Inr (v', m') \<and>
               v_capacity v' = n \<and> v_size v' = v_size v \<and> elems v' m' = elems v m \<and>
               length (slots v' m') = unat n \<and>
               drop (unat (v_size v)) (slots v' m') =
                 replicate (unat n - unat (v_size v)) (Type_default E)"
    using r by (intro exI [of _ ?v] exI [of _ ?m]) simp
qed

theorem Reserve_spec_witness:
  "wf ex_vec ex_mem \<and> Reserve ex_env 2 ex_vec ex_mem = Inr (ex_vec, ex_mem) \<and>
   (\<exists>v' m'. Reserve ex_env 8 ex_vec ex_mem = Inr (v', m') \<and>
      v_capacity v' = 8 \<and> v_size v' = 3 \<and> elems v' m' = [1, 2, 3] \<and>
      length (slots v' m') = 8 \<and> drop 3 (slots v' m') = [0, 0, 0, 0, 0])"
proof -
  have a: "(2 :: size_t) \<le> v_capacity ex_vec" "v_capacity ex_vec < 8"
    "obtainable ex_env (unat (8 :: size_t))"
    by (simp_all add: ex_vec_def ex_env_def)
  have b: "unat (v_size ex_vec) = 3" "v_size ex_vec = 3" "Type_default ex_env = 0"
    by (simp_all add: ex_vec_def ex_env_def)
  have c: "replicate 5 (0 :: int) = [0, 0, 0, 0, 0]"
    by (simp add: numeral_eq_Suc)
  show ?thesis
    using Reserve_spec [OF wf_ex_vec, of 2 ex_env] Reserve_spec [OF wf_ex_vec, of 8 ex_env] a
    by (simp add: wf_ex_vec elems_ex_vec b c)
qed

section \<open>PushBack and Resize\<close>

lemma Reserve_adopt:
  assumes "wf v m" "v_capacity v < n" "obtainable E (unat n)"
  shows "Reserve E n v m =
           Inr (v\<lparr>v_items := Some (fresh m), v_capacity := n\<rparr>,
                adopt v (elems v m @ replicate (unat n - unat (v_size v)) (Type_default E)) m)"
  using Reserve_grow [OF assms] by (simp add: adopt_def)

lemma slots_adopt:
  "wf v m \<Longrightarrow> v_items v' = Some (fresh m) \<Longrightarrow> slots v' (adopt v xs m) = xs"
  by (auto simp: slots_def adopt_def ArrayPtr_release_def wf_def split: option.splits)

lemma fresh_adopt [simp]: "fresh (adopt v xs m) = Suc (fresh m)"
  by (simp add: adopt_def ArrayPtr_release_def split: option.splits)

lemma blocks_adopt:
  "blocks (adopt v xs m) a =
     (if Some a = v_items v then None else if a = fresh m then Some xs else blocks m a)"
  by (auto simp: adopt_def ArrayPtr_release_def split: option.splits)

lemma wf_adopt:
  "wf v m \<Longrightarrow> v_items v' = Some (fresh m) \<Longrightarrow> v_size v' \<le> v_capacity v' \<Longrightarrow>
   unat (v_capacity v') < 2 ^ 63 \<Longrightarrow> length xs = unat (v_capacity v') \<Longrightarrow>
   wf v' (adopt v xs m)"
  by (auto simp: wf_def blocks_adopt split: option.splits)

lemma slots_write_slots:
  "v_items v' = v_items v \<Longrightarrow> v_items v = Some a \<Longrightarrow> slots v' (write_slots v xs m) = xs"
  by (simp add: slots_def write_slots_def)

lemma fresh_write_slots [simp]: "fresh (write_slots v xs m) = fresh m"
  by (simp add: write_slots_def split: option.splits)

lemma blocks_write_slots:
  "blocks (write_slots v xs m) a = (if Some a = v_items v then Some xs else blocks m a)"
  by (auto simp: write_slots_def split: option.splits)

lemma wf_write_slots:
  "wf v m \<Longrightarrow> v_items v' = v_items v \<Longrightarrow> v_items v = Some a \<Longrightarrow>
   v_size v' \<le> v_capacity v' \<Longrightarrow> unat (v_capacity v') < 2 ^ 63 \<Longrightarrow>
   length xs = unat (v_capacity v') \<Longrightarrow> wf v' (write_slots v xs m)"
  by (auto simp: wf_def blocks_write_slots split: option.splits)

lemma wf_items_Some: "wf v m \<Longrightarrow> v_capacity v \<noteq> 0 \<Longrightarrow> \<exists>a. v_items v = Some a"
  by (cases "v_items v") (auto simp: wf_def)

lemma store_slot:
  assumes "wf v m" "i < unat (v_capacity v)"
  shows "store (Ptr (v_items v) i) x m = Inr (write_slots v ((slots v m)[i := x]) m)"
proof -
  from assms have "v_capacity v \<noteq> 0" by auto
  with assms obtain a where a: "v_items v = Some a" using wf_items_Some by blast
  with assms have "blocks m a = Some (slots v m)" "length (slots v m) = unat (v_capacity v)"
    by (simp_all add: wf_Some)
  with assms a show ?thesis
    by (simp add: store_block write_slots_def)
qed

lemma load_slot:
  assumes "wf v m" "i < unat (v_capacity v)"
  shows "load (Ptr (v_items v) i) m = Inr (slots v m ! i)"
proof -
  from assms have "v_capacity v \<noteq> 0" by auto
  with assms obtain a where a: "v_items v = Some a" using wf_items_Some by blast
  with assms have "blocks m a = Some (slots v m)" "length (slots v m) = unat (v_capacity v)"
    by (simp_all add: wf_Some)
  with assms a show ?thesis
    by (simp add: load_block)
qed

lemma read_ref_Local [simp]: "read_ref (Local x) m = Inr x"
  by (simp add: read_ref_def)

lemma move_out_Local [simp]: "move_out E (Local y) x m = Inr m"
  by (simp add: move_out_def)


text \<open>A call that returns has read some value, and is the call with that value.\<close>

lemma PushBack_by_value:
  assumes "PushBack E r v m = Inr (v', m')"
  shows "\<exists>x. (\<forall>y. r = Local y \<longrightarrow> x = y) \<and> PushBack E (Local x) v m = Inr (v', m')"
proof (cases "v_size v = v_capacity v")
  case False
  with assms obtain x where x: "read_ref r m = Inr x"
    by (cases "read_ref r m") (auto simp: PushBack_def then_do_def)
  with assms False have "PushBack E (Local x) v m = Inr (v', m')"
    by (simp add: PushBack_def)
  moreover from x have "\<forall>y. r = Local y \<longrightarrow> x = y" by auto
  ultimately show ?thesis by blast
next
  case True
  let ?n = "if v_size v = 0 then 1 else v_capacity v * 2"
  from assms True obtain v1 m1 where r: "Reserve E ?n v m = Inr (v1, m1)"
    by (cases "Reserve E ?n v m") (auto simp: PushBack_def Let_def then_do_def)
  with assms True obtain x where x: "read_ref r m1 = Inr x"
    by (cases "read_ref r m1") (auto simp: PushBack_def Let_def then_do_def)
  with assms True r have "PushBack E (Local x) v m = Inr (v', m')"
    by (simp add: PushBack_def Let_def)
  moreover from x have "\<forall>y. r = Local y \<longrightarrow> x = y" by auto
  ultimately show ?thesis by blast
qed

text \<open>While there is room the argument is read from the store as the call found it.\<close>

lemma PushBack_room_ref:
  "v_size v \<noteq> v_capacity v \<Longrightarrow>
   PushBack E r v m = then_do (read_ref r m) (\<lambda>x. PushBack E (Local x) v m)"
  by (cases "read_ref r m") (simp_all add: PushBack_def then_do_def)

lemma PushBack_room:
  assumes "wf v m" "v_size v \<noteq> v_capacity v"
  shows "PushBack E (Local x) v m =
           Inr (v\<lparr>v_size := v_size v + 1\<rparr>,
                write_slots v ((slots v m)[unat (v_size v) := x]) m)"
proof -
  from assms have "v_size v < v_capacity v" by (auto simp: wf_def less_le)
  then have "unat (v_size v) < unat (v_capacity v)" by (simp add: word_less_nat_alt)
  with assms show ?thesis
    by (simp add: PushBack_def subscript_def store_slot)
qed

lemma grow_capacity:
  assumes "wf v m" "v_size v = v_capacity v"
  shows "v_capacity v < (if v_size v = 0 then 1 else v_capacity v * 2)"
    and "unat (if v_size v = 0 then 1 else v_capacity v * 2 :: size_t) =
         (if unat (v_capacity v) = 0 then 1 else 2 * unat (v_capacity v))"
proof -
  from assms have b: "unat (v_capacity v) < 2 ^ 63" by (simp add: wf_def)
  then have d: "unat (v_capacity v * 2) = 2 * unat (v_capacity v)" by (rule unat_double)
  show "unat (if v_size v = 0 then 1 else v_capacity v * 2 :: size_t) =
         (if unat (v_capacity v) = 0 then 1 else 2 * unat (v_capacity v))"
    using assms d by (simp add: unat_0_iff)
  show "v_capacity v < (if v_size v = 0 then 1 else v_capacity v * 2)"
  proof (cases "v_capacity v = 0")
    case True
    with assms show ?thesis by simp
  next
    case False
    then have "0 < unat (v_capacity v)" by (simp add: unat_gt_0)
    then have "unat (v_capacity v) < unat (v_capacity v * 2)" by (simp add: d)
    with False assms show ?thesis by (simp add: word_less_nat_alt)
  qed
qed

lemma PushBack_fail:
  assumes "wf v m" "v_size v = v_capacity v"
    "\<not> obtainable E (if unat (v_capacity v) = 0 then 1 else 2 * unat (v_capacity v))"
  shows "PushBack E (Local x) v m = Inl BadAlloc"
proof -
  let ?n = "if v_size v = 0 then 1 else v_capacity v * 2"
  have "Reserve E ?n v m = Inl BadAlloc"
    using grow_capacity [OF assms(1,2)] assms(3) by (intro Reserve_fail) simp_all
  with assms show ?thesis by (simp add: PushBack_def Let_def)
qed

lemma PushBack_grow:
  assumes "wf v m" "v_size v = v_capacity v"
    "obtainable E (if unat (v_capacity v) = 0 then 1 else 2 * unat (v_capacity v))"
  shows "PushBack E (Local x) v m =
           Inr (v\<lparr>v_items := Some (fresh m),
                   v_capacity := (if v_size v = 0 then 1 else v_capacity v * 2),
                   v_size := v_size v + 1\<rparr>,
                adopt v (elems v m @ x #
                  replicate ((if unat (v_capacity v) = 0 then 1 else 2 * unat (v_capacity v))
                               - Suc (unat (v_size v))) (Type_default E)) m)"
proof -
  let ?n = "if v_size v = 0 then 1 else v_capacity v * 2 :: size_t"
  let ?k = "if unat (v_capacity v) = 0 then 1 else 2 * unat (v_capacity v)"
  let ?s = "unat (v_size v)"
  let ?d = "Type_default E"
  let ?v1 = "v\<lparr>v_items := Some (fresh m), v_capacity := ?n\<rparr>"
  let ?m1 = "adopt v (elems v m @ replicate (unat ?n - ?s) ?d) m"
  have g: "v_capacity v < ?n" "unat ?n = ?k" using grow_capacity [OF assms(1,2)] by simp_all
  have sk: "?s < ?k" using assms(2) by (auto simp: unat_gt_0)
  have len: "length (elems v m) = ?s" using assms(1) by (rule wf_length_elems)
  have r: "Reserve E ?n v m = Inr (?v1, ?m1)"
    using assms g by (intro Reserve_adopt) simp_all
  have st: "store (Ptr (Some (fresh m)) ?s) x ?m1 =
        Inr (?m1\<lparr>blocks := (blocks ?m1)(fresh m \<mapsto> (elems v m @ replicate (unat ?n - ?s) ?d)[?s := x])\<rparr>)"
    using assms(1) sk g len
    by (intro store_block) (auto simp: blocks_adopt wf_def split: option.splits)
  have l: "(elems v m @ replicate (unat ?n - ?s) ?d)[?s := x] = elems v m @ x # replicate (?k - Suc ?s) ?d"
    using len sk g by (simp add: list_update_append replicate_diff_step [of ?s ?k, simplified])
  have e: "?m1\<lparr>blocks := (blocks ?m1)(fresh m \<mapsto> elems v m @ x # replicate (?k - Suc ?s) ?d)\<rparr> =
           adopt v (elems v m @ x # replicate (?k - Suc ?s) ?d) m"
    using assms(1)
    by (auto simp: adopt_def ArrayPtr_release_def fun_eq_iff wf_def split: option.splits)
  show ?thesis
    using assms(2) r st l e
    by (simp add: PushBack_def Let_def subscript_def del: fun_upd_apply)
qed

text \<open>
  A full vector and an argument that is one of its own slots: the slot is in the block that
  \<^verbatim>\<open>Reserve\<close> releases before the argument is read.
\<close>

lemma PushBack_alias:
  assumes "wf v m" "v_size v = v_capacity v" "block_of p = v_items v"
    "obtainable E (if unat (v_capacity v) = 0 then 1 else 2 * unat (v_capacity v))"
  shows "PushBack E (Stored p) v m = Inl Undefined"
    and "PushBack_rv E (Stored p) v m = Inl Undefined"
proof -
  let ?n = "if v_size v = 0 then 1 else v_capacity v * 2 :: size_t"
  let ?v1 = "v\<lparr>v_items := Some (fresh m), v_capacity := ?n\<rparr>"
  let ?m1 = "adopt v (elems v m @ replicate (unat ?n - unat (v_size v)) (Type_default E)) m"
  have g: "v_capacity v < ?n" "unat ?n = (if unat (v_capacity v) = 0 then 1 else 2 * unat (v_capacity v))"
    using grow_capacity [OF assms(1,2)] by simp_all
  have r: "Reserve E ?n v m = Inr (?v1, ?m1)"
    using assms g by (intro Reserve_adopt) simp_all
  have l: "read_ref (Stored p) ?m1 = Inl Undefined"
    using assms(3) by (auto simp: read_ref_def load_def blocks_adopt split: option.splits)
  show "PushBack E (Stored p) v m = Inl Undefined"
    using assms(2) r l by (simp add: PushBack_def Let_def)
  show "PushBack_rv E (Stored p) v m = Inl Undefined"
    using assms(2) r l by (simp add: PushBack_rv_def Let_def)
qed

lemma PopBack_ok: "v_size v \<noteq> 0 \<Longrightarrow> PopBack v = Inr (v\<lparr>v_size := v_size v - 1\<rparr>)"
  by (simp add: PopBack_def IsEmpty_def)

lemma Resize_same: "v_size v = n \<Longrightarrow> Resize E n v m = Inr (v, m)"
  by (simp add: Resize_def)

lemma Resize_shrink:
  "wf v m \<Longrightarrow> n < v_size v \<Longrightarrow> Resize E n v m = Inr (v\<lparr>v_size := n\<rparr>, m)"
  by (auto simp: Resize_def wf_def)

lemma Resize_expose:
  assumes "wf v m" "v_size v < n" "n \<le> v_capacity v"
  shows "Resize E n v m =
           Inr (v\<lparr>v_size := n\<rparr>,
                write_slots v (overwrite (slots v m) (unat (v_size v))
                  (replicate (unat n - unat (v_size v)) (Type_default E))) m)"
proof -
  from assms have "v_capacity v \<noteq> 0" by auto
  with assms obtain a where a: "v_items v = Some a" using wf_items_Some by blast
  with assms have b: "blocks m a = Some (slots v m)" "length (slots v m) = unat (v_capacity v)"
    by (simp_all add: wf_Some)
  have le: "unat (v_size v) \<le> unat n" "unat n \<le> unat (v_capacity v)"
    using assms by (simp_all add: word_less_nat_alt word_le_nat_alt)
  have "std_generate (Ptr (Some a) (unat (v_size v))) (Ptr (Some a) (unat n)) (Type_default E) m =
        Inr (m\<lparr>blocks := (blocks m)(a \<mapsto> overwrite (slots v m) (unat (v_size v))
               (replicate (unat n - unat (v_size v)) (Type_default E)))\<rparr>)"
    using b le by (intro std_generate_block) simp_all
  with assms a show ?thesis
    by (auto simp: Resize_def Get_def ptr_add_def write_slots_def)
qed

lemma Resize_grow_capacity:
  assumes "wf v m" "v_capacity v < n"
  shows "v_capacity v < max n (v_capacity v * 2)"
    and "unat (max n (v_capacity v * 2)) = max (unat n) (2 * unat (v_capacity v))"
    and "v_size v \<noteq> n"
proof -
  from assms have "unat (v_capacity v) < 2 ^ 63" by (simp add: wf_def)
  then have d: "unat (v_capacity v * 2) = 2 * unat (v_capacity v)" by (rule unat_double)
  show "unat (max n (v_capacity v * 2)) = max (unat n) (2 * unat (v_capacity v))"
    using d by (simp add: max_def word_le_nat_alt)
  show "v_capacity v < max n (v_capacity v * 2)"
    using assms by (auto simp: max_def)
  show "v_size v \<noteq> n" using assms by (auto simp: wf_def)
qed

lemma Resize_fail:
  assumes "wf v m" "v_capacity v < n"
    "\<not> obtainable E (max (unat n) (2 * unat (v_capacity v)))"
  shows "Resize E n v m = Inl BadAlloc"
proof -
  have "Reserve E (max n (v_capacity v * 2)) v m = Inl BadAlloc"
    using Resize_grow_capacity [OF assms(1,2)] assms(3) by (intro Reserve_fail) simp_all
  with assms Resize_grow_capacity(3) [OF assms(1,2)] show ?thesis
    by (auto simp: Resize_def Let_def)
qed

lemma Resize_grow:
  assumes "wf v m" "v_capacity v < n"
    "obtainable E (max (unat n) (2 * unat (v_capacity v)))"
  shows "Resize E n v m =
           Inr (v\<lparr>v_items := Some (fresh m), v_capacity := max n (v_capacity v * 2), v_size := n\<rparr>,
                adopt v (elems v m @
                  replicate (max (unat n) (2 * unat (v_capacity v)) - unat (v_size v))
                    (Type_default E)) m)"
proof -
  have "Reserve E (max n (v_capacity v * 2)) v m =
        Inr (v\<lparr>v_items := Some (fresh m), v_capacity := max n (v_capacity v * 2)\<rparr>,
             adopt v (elems v m @ replicate (unat (max n (v_capacity v * 2)) - unat (v_size v))
                        (Type_default E)) m)"
    using Resize_grow_capacity [OF assms(1,2)] assms by (intro Reserve_adopt) simp_all
  with assms Resize_grow_capacity [OF assms(1,2)] show ?thesis
    by (auto simp: Resize_def Let_def)
qed

section \<open>Insert and Erase\<close>

lemma overwrite_tail:
  "length ys \<le> k \<Longrightarrow>
   overwrite (xs @ replicate k d) (length xs) ys = xs @ ys @ replicate (k - length ys) d"
  by (simp add: overwrite_def)

lemma overwrite_tail':
  "n = length xs \<Longrightarrow> length ys \<le> k \<Longrightarrow>
   overwrite (xs @ replicate k d) n ys = xs @ ys @ replicate (k - length ys) d"
  by (simp add: overwrite_tail)

lemma update_as_overwrite: "i < length xs \<Longrightarrow> xs[i := x] = overwrite xs i [x]"
  by (simp add: overwrite_def upd_conv_take_nth_drop)

lemma unat_of_nat_small: "i \<le> unat (s :: size_t) \<Longrightarrow> unat (word_of_int (int i) :: size_t) = i"
proof -
  assume "i \<le> unat s"
  moreover have "unat s < 2 ^ LENGTH(64)" by (rule unsigned_less)
  ultimately have "i < 2 ^ LENGTH(64)" by simp
  then have "unat (of_nat i :: size_t) = i" by (simp add: unat_of_nat take_bit_nat_eq_self)
  then show ?thesis by simp
qed

lemma insert_capacity:
  assumes "wf v m"
  shows "Suc (unat (v_size v)) \<le>
           unat (if v_size v = v_capacity v then (if v_size v = 0 then 1 else v_capacity v * 2)
                 else v_capacity v)"
    and "unat (v_size v + 1) = Suc (unat (v_size v))"
proof -
  have b: "unat (v_capacity v) < 2 ^ 63" using assms by (simp add: wf_def)
  have "unat (v_size v) \<le> unat (v_capacity v)" using assms by (rule wf_size_le)
  with b have "unat (v_size v) + unat (1 :: size_t) < 2 ^ LENGTH(64)" by simp
  then have "unat (v_size v + 1) = unat (v_size v) + unat (1 :: size_t)"
    by (simp only: unat_add_lem)
  then show "unat (v_size v + 1) = Suc (unat (v_size v))" by simp
  show "Suc (unat (v_size v)) \<le>
           unat (if v_size v = v_capacity v then (if v_size v = 0 then 1 else v_capacity v * 2)
                 else v_capacity v)"
  proof (cases "v_size v = v_capacity v")
    case True
    have g: "unat (if v_size v = 0 then 1 else v_capacity v * 2 :: size_t) =
             (if unat (v_capacity v) = 0 then 1 else 2 * unat (v_capacity v))"
      by (rule grow_capacity(2) [OF assms True])
    show ?thesis
      unfolding if_P [OF True] g using True by simp
  next
    case False
    with assms have "v_size v < v_capacity v" by (auto simp: wf_def less_le)
    with False show ?thesis by (simp add: word_less_nat_alt)
  qed
qed

lemma Insert_fail:
  assumes "wf v m" "i \<le> unat (v_size v)"
    "\<not> obtainable E (unat (if v_size v = v_capacity v
                               then (if v_size v = 0 then 1 else v_capacity v * 2)
                               else v_capacity v))"
  shows "Insert E (ptr_add (v_begin v) i) x v m = Inl BadAlloc"
  using assms
  by (simp add: Insert_def v_begin_def Get_def ptr_add_def ptr_le_def ArrayPtr_new_def Let_def)

lemma Insert_ok:
  assumes "wf v m" "i \<le> unat (v_size v)"
    "obtainable E (unat (if v_size v = v_capacity v
                            then (if v_size v = 0 then 1 else v_capacity v * 2)
                            else v_capacity v))"
  shows "Insert E (ptr_add (v_begin v) i) x v m =
           Inr (Ptr (Some (fresh m)) i,
                v\<lparr>v_items := Some (fresh m), v_size := v_size v + 1,
                  v_capacity := (if v_size v = v_capacity v
                                 then (if v_size v = 0 then 1 else v_capacity v * 2)
                                 else v_capacity v)\<rparr>,
                adopt v (take i (elems v m) @ x # drop i (elems v m) @
                  replicate (unat (if v_size v = v_capacity v
                                   then (if v_size v = 0 then 1 else v_capacity v * 2)
                                   else v_capacity v) - Suc (unat (v_size v)))
                    (Type_default E)) m)"
proof -
  let ?n = "if v_size v = v_capacity v then (if v_size v = 0 then 1 else v_capacity v * 2)
            else v_capacity v"
  let ?N = "unat ?n"
  let ?s = "unat (v_size v)"
  let ?d = "Type_default E"
  let ?b = "fresh m"
  let ?es = "elems v m"
  let ?m1 = "m\<lparr>blocks := (blocks m)(?b \<mapsto> replicate ?N ?d), fresh := Suc ?b\<rparr>"
  have cap: "Suc ?s \<le> ?N" and s1: "unat (v_size v + 1) = Suc ?s"
    using insert_capacity [OF assms(1)] by simp_all
  have new: "ArrayPtr_new E ?n m = Inr (Some ?b, ?m1)"
    using assms(3) by (simp add: ArrayPtr_new_def)
  have ix: "unat (word_of_int (int i) :: size_t) = i"
    using assms(2) by (rule unat_of_nat_small)
  have len: "length ?es = ?s" using assms(1) by (rule wf_length_elems)
  show ?thesis
  proof (cases "v_items v")
    case None
    with assms have z: "v_size v = 0" "v_capacity v = 0" "slots v m = []" "i = 0"
      by (simp_all add: wf_None)
    have st: "store (Ptr (Some ?b) 0) x ?m1 =
              Inr (?m1\<lparr>blocks := (blocks ?m1)(?b \<mapsto> (replicate ?N ?d)[0 := x])\<rparr>)"
      using cap by (intro store_block) simp_all
    have e: "?m1\<lparr>blocks := (blocks ?m1)(?b \<mapsto> (replicate ?N ?d)[0 := x])\<rparr> =
             m\<lparr>blocks := (blocks m)(?b \<mapsto> [x]), fresh := Suc ?b\<rparr>"
      using z by (simp add: fun_eq_iff)
    show ?thesis
      using None z new st e
      by (simp add: Insert_def v_begin_def Get_def ptr_add_def ptr_le_def Let_def
            std_distance_def subscript_def ArrayPtr_swap_def adopt_def ArrayPtr_release_def
            elems_def del: fun_upd_apply)
  next
    case (Some a)
    with assms have a: "blocks m a = Some (slots v m)" "a < ?b"
      "length (slots v m) = unat (v_capacity v)"
      by (simp_all add: wf_Some)
    let ?src = "slots v m"
    have sc: "?s \<le> length ?src" using assms(1) a wf_size_le [of v m] by simp
    have ti: "take i ?src = take i ?es" using assms(2) by (simp add: elems_def min_def)
    have dr: "take (?s - i) (drop i ?src) = drop i ?es" by (simp add: elems_def drop_take)
    let ?blk2 = "take i ?es @ replicate (?N - i) ?d"
    let ?blk3 = "take i ?es @ x # replicate (?N - Suc i) ?d"
    let ?blk4 = "take i ?es @ x # drop i ?es @ replicate (?N - Suc ?s) ?d"
    let ?m2 = "?m1\<lparr>blocks := (blocks ?m1)(?b \<mapsto> ?blk2)\<rparr>"
    let ?m3 = "?m1\<lparr>blocks := (blocks ?m1)(?b \<mapsto> ?blk3)\<rparr>"
    let ?m4 = "?m1\<lparr>blocks := (blocks ?m1)(?b \<mapsto> ?blk4)\<rparr>"
    have li: "length (take i ?es) = i" using assms(2) len by simp
    have "std_copy (Ptr (Some a) 0) (Ptr (Some a) i) (Ptr (Some ?b) 0) ?m1 =
          Inr (?m1\<lparr>blocks := (blocks ?m1)(?b \<mapsto>
                 overwrite (replicate ?N ?d) 0 (take (i - 0) (drop 0 ?src)))\<rparr>)"
      using a assms(2) sc cap by (intro std_copy_blocks) simp_all
    moreover have "overwrite (replicate ?N ?d) 0 (take i ?es) = ?blk2"
      using overwrite_tail' [of 0 "[]" "take i ?es" ?N ?d] li assms(2) cap by simp
    ultimately have c1: "std_copy (Ptr (Some a) 0) (Ptr (Some a) i) (Ptr (Some ?b) 0) ?m1 = Inr ?m2"
      by (simp add: ti)
    have "store (Ptr (Some ?b) i) x ?m2 =
          Inr (?m2\<lparr>blocks := (blocks ?m2)(?b \<mapsto> ?blk2[i := x])\<rparr>)"
      using li assms(2) cap by (intro store_block) simp_all
    moreover have "?blk2[i := x] = ?blk3"
      using li assms(2) cap
      by (simp add: list_update_append replicate_diff_step [of i ?N])
    ultimately have c2: "store (Ptr (Some ?b) i) x ?m2 = Inr ?m3"
      by simp
    have "std_copy_backward (Ptr (Some a) i) (Ptr (Some a) ?s) (Ptr (Some ?b) (Suc ?s)) ?m3 =
          Inr (?m3\<lparr>blocks := (blocks ?m3)(?b \<mapsto>
                 overwrite ?blk3 (Suc ?s - (?s - i)) (take (?s - i) (drop i ?src)))\<rparr>)"
      using a assms(2) sc cap li by (intro std_copy_backward_blocks) simp_all
    moreover have "Suc ?s - (?s - i) = Suc i" using assms(2) by simp
    moreover have "overwrite ((take i ?es @ [x]) @ replicate (?N - Suc i) ?d) (Suc i) (drop i ?es) =
                   (take i ?es @ [x]) @ drop i ?es @ replicate (?N - Suc i - length (drop i ?es)) ?d"
      using li len assms(2) cap by (intro overwrite_tail') simp_all
    ultimately have c3:
      "std_copy_backward (Ptr (Some a) i) (Ptr (Some a) ?s) (Ptr (Some ?b) (Suc ?s)) ?m3 = Inr ?m4"
      using len by (simp add: dr)
    have "std_fill (Ptr (Some ?b) (Suc ?s)) (Ptr (Some ?b) ?N) ?d ?m4 =
          Inr (?m4\<lparr>blocks := (blocks ?m4)(?b \<mapsto>
                 overwrite ?blk4 (Suc ?s) (replicate (?N - Suc ?s) ?d))\<rparr>)"
      using cap len li assms(2) by (intro std_fill_block) simp_all
    moreover have "overwrite ((take i ?es @ x # drop i ?es) @ replicate (?N - Suc ?s) ?d) (Suc ?s)
                     (replicate (?N - Suc ?s) ?d) =
                   (take i ?es @ x # drop i ?es) @ replicate (?N - Suc ?s) ?d @
                     replicate (?N - Suc ?s - length (replicate (?N - Suc ?s) ?d)) ?d"
      using len li assms(2) by (intro overwrite_tail') simp_all
    ultimately have c4:
      "std_fill (Ptr (Some ?b) (Suc ?s)) (Ptr (Some ?b) ?N) ?d ?m4 = Inr ?m4"
      by simp
    have e: "?m4\<lparr>blocks := (blocks ?m4)(a := None)\<rparr> = adopt v ?blk4 m"
      using Some by (simp add: adopt_def ArrayPtr_release_def)
    show ?thesis
      using Some assms(2) new ix s1 c1 c2 c3 c4 e
      by (simp add: Insert_def v_begin_def Get_def ptr_add_def ptr_le_def Let_def
            std_distance_def subscript_def ArrayPtr_swap_def ArrayPtr_release_def
            del: fun_upd_apply)
  qed
qed

lemma Erase_ok:
  assumes "wf v m" "i < unat (v_size v)"
  shows "Erase E (ptr_add (v_begin v) i) v m =
           Inr (Ptr (v_items v) i, v\<lparr>v_size := v_size v - 1\<rparr>,
                write_slots v (shift_left E (slots v m) i (unat (v_size v))) m)"
proof -
  have sc: "unat (v_size v) \<le> unat (v_capacity v)" using assms(1) by (rule wf_size_le)
  with assms have "v_capacity v \<noteq> 0" by auto
  with assms obtain a where a: "v_items v = Some a" using wf_items_Some by blast
  with assms have b: "blocks m a = Some (slots v m)" "length (slots v m) = unat (v_capacity v)"
    by (simp_all add: wf_Some)
  have ne: "v_size v \<noteq> 0" using assms(2) by auto
  have ix: "unat (word_of_int (int i) :: size_t) = i"
    using assms(2) by (intro unat_of_nat_small [of i "v_size v"]) simp
  have "std_move E (Ptr (Some a) (Suc i)) (Ptr (Some a) (unat (v_size v))) (Ptr (Some a) i) m =
        Inr (m\<lparr>blocks := (blocks m)(a \<mapsto> shift_left E (slots v m) i (unat (v_size v)))\<rparr>)"
    using b assms(2) sc by (intro std_move_left) simp_all
  with a assms(2) ne ix show ?thesis
    by (simp add: Erase_def IsEmpty_def v_begin_def Get_def ptr_add_def ptr_le_def Let_def
          std_distance_def subscript_def write_slots_def del: fun_upd_apply)
qed

lemma take_prefix_length: "length xs = n \<Longrightarrow> take n (xs @ ys) = xs"
  by simp

lemma take_shift_left:
  assumes "i < s" "s \<le> length blk"
  shows "take (s - 1) (shift_left E blk i s) = take i (take s blk) @ drop (Suc i) (take s blk)"
proof (cases "Suc i < s")
  case True
  have "take (s - 1) (shift_left E blk i s) =
        take (s - 1) ((take i blk @ take (s - Suc i) (drop (Suc i) blk)) @
                       ([moved_from E (blk ! (s - 1))] @ drop s blk))"
    using True by (simp add: shift_left_def)
  also have "\<dots> = take i blk @ take (s - Suc i) (drop (Suc i) blk)"
  proof -
    have "length (take i blk @ take (s - Suc i) (drop (Suc i) blk)) = s - 1"
      using assms True by simp
    then show ?thesis by (rule take_prefix_length)
  qed
  also have "\<dots> = take i (take s blk) @ drop (Suc i) (take s blk)"
    using assms by (simp add: min_def drop_take)
  finally show ?thesis .
next
  case False
  with assms have s: "s = Suc i" by simp
  then show ?thesis using assms by (simp add: shift_left_def min_def)
qed

lemma length_shift_left [simp]:
  "s \<le> length blk \<Longrightarrow> length (shift_left E blk i s) = length blk"
  by (auto simp: shift_left_def)

section \<open>Sequences of PushBack\<close>

lemma wf_default: "wf SimpleVector_default m"
  by (simp add: wf_def SimpleVector_default_def)

lemma elems_default: "elems SimpleVector_default m = []"
  by (simp add: elems_def slots_def SimpleVector_default_def)

lemma doubling_ge: "n \<le> doubling n"
  by (induction n) auto

lemma doubling_mono: "doubling n \<le> doubling (Suc n)"
  by simp

lemma doubling_le: "doubling n \<le> 2 * n"
  by (induction n) auto

lemma doubling_power: "doubling n = 0 \<or> (\<exists>k. doubling n = 2 ^ k)"
proof (induction n)
  case 0
  show ?case by simp
next
  case (Suc n)
  then show ?case
  proof
    assume "doubling n = 0"
    then have "doubling (Suc n) = 2 ^ 0 \<or> doubling (Suc n) = 0" by simp
    then show ?thesis by blast
  next
    assume "\<exists>k. doubling n = 2 ^ k"
    then obtain k where k: "doubling n = 2 ^ k" ..
    have "doubling (Suc n) = doubling n \<or> doubling (Suc n) = 2 * doubling n \<or> doubling n = 0"
      by simp
    with k have "doubling (Suc n) = 2 ^ k \<or> doubling (Suc n) = 2 ^ Suc k"
      by (simp only: power_Suc) auto
    then show ?thesis by blast
  qed
qed

lemma PushBack_step:
  assumes "wf v m" "env_ok E" "PushBack E (Local x) v m = Inr (v', m')"
  shows "wf v' m'" and "unat (v_size v') = Suc (unat (v_size v))"
    and "elems v' m' = elems v m @ [x]"
    and "unat (v_capacity v') =
           (if v_size v = v_capacity v
            then (if unat (v_capacity v) = 0 then 1 else 2 * unat (v_capacity v))
            else unat (v_capacity v))"
proof -
  let ?s = "unat (v_size v)"
  let ?k = "if unat (v_capacity v) = 0 then 1 else 2 * unat (v_capacity v)"
  have s1: "unat (v_size v + 1) = Suc ?s" using insert_capacity(2) [OF assms(1)] .
  have len: "length (elems v m) = ?s" using assms(1) by (rule wf_length_elems)
  have all: "wf v' m' \<and> unat (v_size v') = Suc ?s \<and> elems v' m' = elems v m @ [x] \<and>
             unat (v_capacity v') = (if v_size v = v_capacity v then ?k else unat (v_capacity v))"
  proof (cases "v_size v = v_capacity v")
    case False
    with assms(1) have lt: "v_size v < v_capacity v" by (auto simp: wf_def less_le)
    then have sc: "?s < unat (v_capacity v)" by (simp add: word_less_nat_alt)
    from False assms(1) have "v_capacity v \<noteq> 0" using lt by auto
    with assms(1) obtain a where a: "v_items v = Some a" using wf_items_Some by blast
    have ls: "length (slots v m) = unat (v_capacity v)" using assms(1) by (rule wf_length_slots)
    from PushBack_room [OF assms(1) False, of E x] assms(3)
    have v': "v' = v\<lparr>v_size := v_size v + 1\<rparr>"
      and m': "m' = write_slots v ((slots v m)[?s := x]) m" by simp_all
    have sl: "slots v' m' = (slots v m)[?s := x]"
      unfolding v' m' using a by (intro slots_write_slots) simp_all
    have le: "v_size v + 1 \<le> v_capacity v"
      using sc s1 by (simp add: word_le_nat_alt)
    have w: "wf v' m'"
      unfolding v' m' using assms(1) a le ls
      by (intro wf_write_slots [where a = a]) (simp_all add: wf_def)
    have "elems v' m' = take (Suc ?s) ((slots v m)[?s := x])"
      by (simp add: elems_def sl) (simp add: v' s1)
    also have "\<dots> = elems v m @ [x]"
      using sc ls by (simp add: take_Suc_conv_app_nth elems_def)
    finally have el: "elems v' m' = elems v m @ [x]" .
    have sz: "unat (v_size v') = Suc ?s" by (simp add: v' s1)
    have cp: "unat (v_capacity v') = unat (v_capacity v)" by (simp add: v')
    from w el sz cp False show ?thesis by simp
  next
    case True
    have ob: "obtainable E ?k"
    proof (rule ccontr)
      assume "\<not> obtainable E ?k"
      then have "PushBack E (Local x) v m = Inl BadAlloc"
        using assms(1) True by (intro PushBack_fail)
      with assms(3) show False by simp
    qed
    then have kb: "?k < 2 ^ 63" using assms(2) by (simp add: env_ok_def)
    have g: "unat (if v_size v = 0 then 1 else v_capacity v * 2 :: size_t) = ?k"
      by (rule grow_capacity(2) [OF assms(1) True])
    have sk: "Suc ?s \<le> ?k" using True by (auto simp: unat_gt_0 Suc_le_eq)
    let ?xs = "elems v m @ x # replicate (?k - Suc ?s) (Type_default E)"
    from PushBack_grow [OF assms(1) True ob, of x] assms(3)
    have v': "v' = v\<lparr>v_items := Some (fresh m),
                      v_capacity := (if v_size v = 0 then 1 else v_capacity v * 2),
                      v_size := v_size v + 1\<rparr>"
      and m': "m' = adopt v ?xs m" by simp_all
    have sl: "slots v' m' = ?xs"
      unfolding v' m' using assms(1) by (intro slots_adopt) simp_all
    have w: "wf v' m'"
      unfolding v' m' using assms(1) g kb sk s1 len
      by (intro wf_adopt) (simp_all add: word_le_nat_alt)
    have "elems v' m' = take (Suc ?s) ?xs"
      by (simp add: elems_def sl) (simp add: v' s1)
    also have "\<dots> = elems v m @ [x]" using len by simp
    finally have el: "elems v' m' = elems v m @ [x]" .
    have sz: "unat (v_size v') = Suc ?s" by (simp add: v' s1)
    have cp: "unat (v_capacity v') = ?k" using g by (simp add: v')
    from w el sz cp True show ?thesis by simp
  qed
  from all show "wf v' m'" by simp
  from all show "unat (v_size v') = Suc ?s" by simp
  from all show "elems v' m' = elems v m @ [x]" by simp
  from all show "unat (v_capacity v') =
           (if v_size v = v_capacity v then ?k else unat (v_capacity v))" by simp
qed

lemma PushBack_returns:
  assumes "wf v m"
    "v_size v = v_capacity v \<longrightarrow>
       obtainable E (if unat (v_capacity v) = 0 then 1 else 2 * unat (v_capacity v))"
  shows "\<exists>v' m'. PushBack E (Local x) v m = Inr (v', m')"
proof (cases "v_size v = v_capacity v")
  case True
  with assms show ?thesis using PushBack_grow [OF assms(1) True, of E x] by blast
next
  case False
  with assms show ?thesis using PushBack_room [OF assms(1) False, of E x] by blast
qed

lemma size_eq_capacity_iff:
  "wf v m \<Longrightarrow> (v_size v = v_capacity v) = (unat (v_size v) = unat (v_capacity v))"
  by (simp add: word_unat_eq_iff)

lemma push_all_inv:
  assumes "env_ok E"
  shows "wf v m \<Longrightarrow> unat (v_capacity v) = doubling (unat (v_size v)) \<Longrightarrow>
         push_all E (map Local xs) v m = Inr (v', m') \<Longrightarrow>
         wf v' m' \<and> unat (v_size v') = unat (v_size v) + length xs \<and>
         elems v' m' = elems v m @ xs \<and>
         unat (v_capacity v') = doubling (unat (v_size v) + length xs)"
proof (induction xs arbitrary: v m)
  case Nil
  then show ?case by simp
next
  case (Cons x xs)
  from Cons.prems(3) obtain v1 m1 where
    p: "PushBack E (Local x) v m = Inr (v1, m1)" and r: "push_all E (map Local xs) v1 m1 = Inr (v', m')"
    by (cases "PushBack E (Local x) v m") auto
  note st = PushBack_step [OF Cons.prems(1) assms p]
  have c: "unat (v_capacity v1) = doubling (unat (v_size v1))"
    using st(2,4) Cons.prems(2) by (simp add: size_eq_capacity_iff [OF Cons.prems(1)])
  from Cons.IH [OF st(1) c r] st(2,3) show ?case by simp
qed

lemma push_all_returns:
  assumes "env_ok E"
  shows "wf v m \<Longrightarrow> unat (v_capacity v) = doubling (unat (v_size v)) \<Longrightarrow>
         (\<forall>k. unat (v_size v) < k \<and> k \<le> unat (v_size v) + length xs \<longrightarrow> obtainable E (doubling k)) \<Longrightarrow>
         \<exists>v' m'. push_all E (map Local xs) v m = Inr (v', m')"
proof (induction xs arbitrary: v m)
  case Nil
  then show ?case by simp
next
  case (Cons x xs)
  let ?s = "unat (v_size v)"
  have "obtainable E (doubling (Suc ?s))" using Cons.prems(3) by (simp del: doubling.simps)
  then have "v_size v = v_capacity v \<longrightarrow>
       obtainable E (if unat (v_capacity v) = 0 then 1 else 2 * unat (v_capacity v))"
    using Cons.prems(2) by (auto simp: size_eq_capacity_iff [OF Cons.prems(1)])
  then obtain v1 m1 where p: "PushBack E (Local x) v m = Inr (v1, m1)"
    using PushBack_returns [OF Cons.prems(1)] by blast
  note st = PushBack_step [OF Cons.prems(1) assms p]
  have c: "unat (v_capacity v1) = doubling (unat (v_size v1))"
    using st(2,4) Cons.prems(2) by (simp add: size_eq_capacity_iff [OF Cons.prems(1)])
  have "\<forall>k. unat (v_size v1) < k \<and> k \<le> unat (v_size v1) + length xs \<longrightarrow> obtainable E (doubling k)"
    using Cons.prems(3) st(2) by simp
  from Cons.IH [OF st(1) c this] p show ?case by simp
qed

lemma push_all_by_value:
  "push_all E rs v m = Inr (v', m') \<Longrightarrow>
   \<exists>xs. list_all2 (\<lambda>r x. \<forall>y. r = Local y \<longrightarrow> x = y) rs xs \<and>
        push_all E (map Local xs) v m = Inr (v', m')"
proof (induction rs arbitrary: v m)
  case Nil
  then show ?case by simp
next
  case (Cons r rs)
  from Cons.prems obtain v1 m1 where
    p: "PushBack E r v m = Inr (v1, m1)" and q: "push_all E rs v1 m1 = Inr (v', m')"
    by (cases "PushBack E r v m") auto
  from PushBack_by_value [OF p] obtain x where
    x: "\<forall>y. r = Local y \<longrightarrow> x = y" and px: "PushBack E (Local x) v m = Inr (v1, m1)" by blast
  from Cons.IH [OF q] obtain xs where
    xs: "list_all2 (\<lambda>r x. \<forall>y. r = Local y \<longrightarrow> x = y) rs xs"
    and pxs: "push_all E (map Local xs) v1 m1 = Inr (v', m')" by blast
  from x xs have "list_all2 (\<lambda>r x. \<forall>y. r = Local y \<longrightarrow> x = y) (r # rs) (x # xs)" by simp
  moreover from px pxs have "push_all E (map Local (x # xs)) v m = Inr (v', m')" by simp
  ultimately show ?case by blast
qed

text \<open>
  Appends to an empty vector, whatever the arguments refer to: if the \<open>N\<close> calls return, the
  size is \<open>N\<close>, the capacity is what the doubling policy gives (0, 1, 2, 4, 8, ...: never
  shrinking, never below the size), and the element at each index is the value that the call
  read; for an argument that is not in the store that is the pushed value.  When no argument
  is in the store the calls all return, provided every block the policy asks for can be
  obtained.
\<close>

lemma push_all_spec:
  assumes "env_ok E"
  shows "(push_all E rs SimpleVector_default m = Inr (v, m') \<longrightarrow>
            unat (v_size v) = length rs \<and>
            list_all2 (\<lambda>r x. \<forall>y. r = Local y \<longrightarrow> x = y) rs (elems v m') \<and>
            unat (v_capacity v) = doubling (length rs) \<and> v_size v \<le> v_capacity v) \<and>
         (push_all E (map Local xs) SimpleVector_default m = Inr (v, m') \<longrightarrow> elems v m' = xs) \<and>
         ((\<forall>k. 0 < k \<and> k \<le> length xs \<longrightarrow> obtainable E (doubling k)) \<longrightarrow>
            (\<exists>v m'. push_all E (map Local xs) SimpleVector_default m = Inr (v, m'))) \<and>
         (wf u h \<and> PushBack E r u h = Inr (u', h') \<longrightarrow>
            unat (v_capacity u') =
              (if v_size u = v_capacity u
               then (if unat (v_capacity u) = 0 then 1 else 2 * unat (v_capacity u))
               else unat (v_capacity u))) \<and>
         doubling 0 = 0 \<and> doubling n \<le> doubling (Suc n) \<and> n \<le> doubling n \<and>
         (doubling n = 0 \<or> (\<exists>k. doubling n = 2 ^ k))"
proof -
  have d0: "unat (v_capacity SimpleVector_default) = doubling (unat (v_size SimpleVector_default))"
    by (simp add: SimpleVector_default_def)
  have s0: "unat (v_size SimpleVector_default) = 0"
    by (simp add: SimpleVector_default_def)
  have a: "unat (v_size v) = length xs \<and> elems v m' = xs \<and>
           unat (v_capacity v) = doubling (length xs) \<and> v_size v \<le> v_capacity v"
    if "push_all E (map Local xs) SimpleVector_default m = Inr (v, m')" for xs
    using push_all_inv [OF assms wf_default d0 that]
    by (simp add: s0 elems_default wf_def)
  have a': "unat (v_size v) = length rs \<and>
            list_all2 (\<lambda>r x. \<forall>y. r = Local y \<longrightarrow> x = y) rs (elems v m') \<and>
            unat (v_capacity v) = doubling (length rs) \<and> v_size v \<le> v_capacity v"
    if "push_all E rs SimpleVector_default m = Inr (v, m')"
  proof -
    from push_all_by_value [OF that] obtain ys where
      l: "list_all2 (\<lambda>r x. \<forall>y. r = Local y \<longrightarrow> x = y) rs ys"
      and p: "push_all E (map Local ys) SimpleVector_default m = Inr (v, m')" by blast
    from l have "length ys = length rs" by (simp add: list_all2_lengthD)
    with a [OF p] l show ?thesis by simp
  qed
  have b: "\<exists>v m'. push_all E (map Local xs) SimpleVector_default m = Inr (v, m')"
    if "\<forall>k. 0 < k \<and> k \<le> length xs \<longrightarrow> obtainable E (doubling k)"
    using that by (intro push_all_returns [OF assms wf_default d0]) (simp add: s0)
  have c: "unat (v_capacity u') =
              (if v_size u = v_capacity u
               then (if unat (v_capacity u) = 0 then 1 else 2 * unat (v_capacity u))
               else unat (v_capacity u))"
    if "wf u h \<and> PushBack E r u h = Inr (u', h')"
  proof -
    from that PushBack_by_value [of E r u h u' h'] obtain x where
      "PushBack E (Local x) u h = Inr (u', h')" by blast
    with that PushBack_step(4) [OF _ assms, of u h x u' h'] show ?thesis by simp
  qed
  show ?thesis
    using a a' b c doubling_ge [of n] doubling_power [of n] by simp
qed

lemma push_all_example:
  "env_ok ex_env \<and>
   (\<exists>v m'. push_all ex_env [Local 1, Local 2, Local 3] SimpleVector_default ex_mem = Inr (v, m') \<and>
      unat (v_size v) = 3 \<and> elems v m' = [1, 2, 3] \<and> unat (v_capacity v) = 4)"
proof -
  have ob: "\<forall>k. 0 < k \<and> k \<le> length [1, 2, 3 :: int] \<longrightarrow> obtainable ex_env (doubling k)"
  proof (intro allI impI)
    fix k :: nat
    assume "0 < k \<and> k \<le> length [1, 2, 3 :: int]"
    then have "2 * k \<le> 6" by simp
    with doubling_le [of k] have "doubling k < 2 ^ 63" by simp
    then show "obtainable ex_env (doubling k)" by (simp add: ex_env_def)
  qed
  have d: "doubling (length [1, 2, 3 :: int]) = 4" by simp
  from push_all_spec [OF env_ok_ex_env, of _ _ _ _ "[1, 2, 3]"] ob
  obtain v m' where
    r: "push_all ex_env (map Local [1, 2, 3]) SimpleVector_default ex_mem = Inr (v, m')"
    by blast
  with push_all_spec [OF env_ok_ex_env, of "map Local [1, 2, 3]" ex_mem v m' "[1, 2, 3]"] d
  have "unat (v_size v) = 3 \<and> elems v m' = [1, 2, 3] \<and> unat (v_capacity v) = 4" by simp
  with r env_ok_ex_env show ?thesis by auto
qed

section \<open>Insert followed by Erase; PopBack and Erase\<close>

lemma Insert_step:
  assumes "wf v m" "env_ok E" "i \<le> unat (v_size v)"
    "Insert E (ptr_add (v_begin v) i) x v m = Inr (p, v', m')"
  shows "wf v' m'" and "unat (v_size v') = Suc (unat (v_size v))"
    and "elems v' m' = take i (elems v m) @ x # drop i (elems v m)"
    and "p = ptr_add (v_begin v') i" and "v_size v' = v_size v + 1"
proof -
  let ?n = "if v_size v = v_capacity v then (if v_size v = 0 then 1 else v_capacity v * 2)
            else v_capacity v"
  let ?s = "unat (v_size v)"
  let ?xs = "take i (elems v m) @ x # drop i (elems v m) @
             replicate (unat ?n - Suc ?s) (Type_default E)"
  have ob: "obtainable E (unat ?n)"
  proof (rule ccontr)
    assume "\<not> obtainable E (unat ?n)"
    then have "Insert E (ptr_add (v_begin v) i) x v m = Inl BadAlloc"
      using assms(1,3) by (intro Insert_fail)
    with assms(4) show False by simp
  qed
  then have nb: "unat ?n < 2 ^ 63" using assms(2) by (simp add: env_ok_def)
  have cap: "Suc ?s \<le> unat ?n" and s1: "unat (v_size v + 1) = Suc ?s"
    using insert_capacity [OF assms(1)] by simp_all
  have len: "length (elems v m) = ?s" using assms(1) by (rule wf_length_elems)
  from Insert_ok [OF assms(1,3) ob, of x] assms(4)
  have p: "p = Ptr (Some (fresh m)) i"
    and v': "v' = v\<lparr>v_items := Some (fresh m), v_size := v_size v + 1, v_capacity := ?n\<rparr>"
    and m': "m' = adopt v ?xs m" by simp_all
  have lx: "length ?xs = unat ?n" using len assms(3) cap by simp
  have sl: "slots v' m' = ?xs"
    unfolding v' m' using assms(1) by (intro slots_adopt) simp_all
  show "wf v' m'"
    unfolding v' m' using assms(1) nb cap s1 lx
    by (intro wf_adopt) (simp_all add: word_le_nat_alt)
  show "v_size v' = v_size v + 1" by (simp add: v')
  show sz: "unat (v_size v') = Suc ?s" by (simp add: v' s1)
  have "elems v' m' = take (Suc ?s) ((take i (elems v m) @ x # drop i (elems v m)) @
                        replicate (unat ?n - Suc ?s) (Type_default E))"
    by (simp add: elems_def [of v'] sl sz)
  also have "\<dots> = take i (elems v m) @ x # drop i (elems v m)"
    using len assms(3) by (intro take_prefix_length) simp
  finally show "elems v' m' = take i (elems v m) @ x # drop i (elems v m)" .
  show "p = ptr_add (v_begin v') i"
    by (simp add: p v' v_begin_def Get_def ptr_add_def)
qed

lemma Erase_step:
  assumes "wf v m" "i < unat (v_size v)"
  shows "\<exists>q v' m'. Erase E (ptr_add (v_begin v) i) v m = Inr (q, v', m') \<and>
           q = ptr_add (v_begin v') i \<and> wf v' m' \<and>
           v_capacity v' = v_capacity v \<and> v_items v' = v_items v \<and>
           v_size v' = v_size v - 1 \<and> unat (v_size v') = unat (v_size v) - 1 \<and>
           length (slots v' m') = length (slots v m) \<and>
           elems v' m' = take i (elems v m) @ drop (Suc i) (elems v m)"
proof -
  let ?s = "unat (v_size v)"
  let ?v = "v\<lparr>v_size := v_size v - 1\<rparr>"
  let ?blk = "shift_left E (slots v m) i ?s"
  let ?m = "write_slots v ?blk m"
  have sc: "?s \<le> unat (v_capacity v)" using assms(1) by (rule wf_size_le)
  with assms have "v_capacity v \<noteq> 0" by auto
  with assms obtain a where a: "v_items v = Some a" using wf_items_Some by blast
  have ls: "length (slots v m) = unat (v_capacity v)" using assms(1) by (rule wf_length_slots)
  have ne: "v_size v \<noteq> 0" using assms(2) by auto
  then have s1: "unat (v_size v - 1) = ?s - 1" by (rule unat_minus_one)
  have e: "Erase E (ptr_add (v_begin v) i) v m = Inr (Ptr (v_items v) i, ?v, ?m)"
    using assms by (rule Erase_ok)
  have sl: "slots ?v ?m = ?blk"
    using a by (intro slots_write_slots) simp_all
  have lb: "length ?blk = unat (v_capacity v)" using sc ls by simp
  have le: "v_size v - 1 \<le> v_capacity v"
    using s1 sc by (simp add: word_le_nat_alt)
  have w: "wf ?v ?m"
    using assms(1) a le lb by (intro wf_write_slots [where a = a]) (simp_all add: wf_def)
  have "elems ?v ?m = take (?s - 1) ?blk" by (simp add: elems_def sl s1)
  also have "\<dots> = take i (take ?s (slots v m)) @ drop (Suc i) (take ?s (slots v m))"
    using assms(2) sc ls by (intro take_shift_left) simp_all
  finally have el: "elems ?v ?m = take i (elems v m) @ drop (Suc i) (elems v m)"
    by (simp add: elems_def)
  have q: "Ptr (v_items v) i = ptr_add (v_begin ?v) i"
    by (simp add: v_begin_def Get_def ptr_add_def)
  show ?thesis
    using e q w s1 sl lb ls el by (intro exI [of _ "Ptr (v_items v) i"] exI [of _ ?v] exI [of _ ?m]) simp
qed

lemma Insert_returns:
  assumes "wf v m" "i \<le> unat (v_size v)"
    "obtainable E (unat (if v_size v = v_capacity v
                            then (if v_size v = 0 then 1 else v_capacity v * 2)
                            else v_capacity v))"
  shows "\<exists>p v' m'. Insert E (ptr_add (v_begin v) i) x v m = Inr (p, v', m')"
  using Insert_ok [OF assms, of x] by blast

text \<open>
  C2.  Inserting a value at index \<open>i \<le> size\<close> and then erasing at index \<open>i\<close> (which is where
  the iterator returned by \<^verbatim>\<open>Insert\<close> points) gives back the original size and the original
  elements.  \<^verbatim>\<open>Insert\<close> returns whenever the block it asks for can be obtained, and \<^verbatim>\<open>Erase\<close>
  on its result always returns.
\<close>

theorem Insert_then_Erase:
  assumes "wf v m" "env_ok E" "i \<le> unat (v_size v)"
  shows "(obtainable E (unat (if v_size v = v_capacity v
                                 then (if v_size v = 0 then 1 else v_capacity v * 2)
                                 else v_capacity v)) \<longrightarrow>
            (\<exists>p v1 m1. Insert E (ptr_add (v_begin v) i) x v m = Inr (p, v1, m1))) \<and>
         (Insert E (ptr_add (v_begin v) i) x v m = Inr (p, v1, m1) \<longrightarrow>
            p = ptr_add (v_begin v1) i \<and>
            (\<exists>q v2 m2. Erase E p v1 m1 = Inr (q, v2, m2) \<and>
               v_size v2 = v_size v \<and> elems v2 m2 = elems v m))"
proof (intro conjI impI)
  assume "obtainable E (unat (if v_size v = v_capacity v
                                 then (if v_size v = 0 then 1 else v_capacity v * 2)
                                 else v_capacity v))"
  then show "\<exists>p v1 m1. Insert E (ptr_add (v_begin v) i) x v m = Inr (p, v1, m1)"
    using assms(1,3) by (intro Insert_returns)
next
  assume ins: "Insert E (ptr_add (v_begin v) i) x v m = Inr (p, v1, m1)"
  note st = Insert_step [OF assms ins]
  show "p = ptr_add (v_begin v1) i" by (rule st(4))
next
  assume ins: "Insert E (ptr_add (v_begin v) i) x v m = Inr (p, v1, m1)"
  note st = Insert_step [OF assms ins]
  have i1: "i < unat (v_size v1)" using assms(3) st(2) by simp
  from Erase_step [OF st(1) i1, of E] obtain q v2 m2 where
    e: "Erase E (ptr_add (v_begin v1) i) v1 m1 = Inr (q, v2, m2)"
    and sz: "v_size v2 = v_size v1 - 1"
    and el: "elems v2 m2 = take i (elems v1 m1) @ drop (Suc i) (elems v1 m1)"
    by blast
  have len: "length (elems v m) = unat (v_size v)" using assms(1) by (rule wf_length_elems)
  have li: "length (take i (elems v m)) = i" using len assms(3) by simp
  have "take i (take i (elems v m) @ x # drop i (elems v m)) = take i (elems v m)"
    using li by (intro take_prefix_length)
  moreover have "drop (Suc i) (take i (elems v m) @ x # drop i (elems v m)) = drop i (elems v m)"
    using li by simp
  ultimately have "elems v2 m2 = elems v m"
    by (simp add: el st(3))
  moreover have "v_size v2 = v_size v" by (simp add: sz st(5))
  ultimately show "\<exists>q v2 m2. Erase E p v1 m1 = Inr (q, v2, m2) \<and>
               v_size v2 = v_size v \<and> elems v2 m2 = elems v m"
    using e st(4) by auto
qed

theorem Insert_then_Erase_witness:
  "wf ex_vec ex_mem \<and> env_ok ex_env \<and> (1 :: nat) \<le> unat (v_size ex_vec) \<and>
   (\<exists>p v1 m1. Insert ex_env (ptr_add (v_begin ex_vec) 1) 9 ex_vec ex_mem = Inr (p, v1, m1) \<and>
      elems v1 m1 = [1, 9, 2, 3] \<and>
      (\<exists>q v2 m2. Erase ex_env p v1 m1 = Inr (q, v2, m2) \<and>
         v_size v2 = 3 \<and> elems v2 m2 = [1, 2, 3]))"
proof -
  have i: "(1 :: nat) \<le> unat (v_size ex_vec)" by (simp add: ex_vec_def)
  have sz: "v_size ex_vec = 3" by (simp add: ex_vec_def)
  have ob: "obtainable ex_env (unat (if v_size ex_vec = v_capacity ex_vec
                                 then (if v_size ex_vec = 0 then 1 else v_capacity ex_vec * 2)
                                 else v_capacity ex_vec))"
    by (simp add: ex_vec_def ex_env_def)
  from Insert_then_Erase [OF wf_ex_vec env_ok_ex_env i, of 9] ob
  obtain p v1 m1 where
    ins: "Insert ex_env (ptr_add (v_begin ex_vec) 1) 9 ex_vec ex_mem = Inr (p, v1, m1)"
    by blast
  with Insert_then_Erase [OF wf_ex_vec env_ok_ex_env i, of 9 p v1 m1]
  have er: "\<exists>q v2 m2. Erase ex_env p v1 m1 = Inr (q, v2, m2) \<and>
              v_size v2 = 3 \<and> elems v2 m2 = [1, 2, 3]"
    by (auto simp: elems_ex_vec sz)
  have "elems v1 m1 = [1, 9, 2, 3]"
    using Insert_step(3) [OF wf_ex_vec env_ok_ex_env i ins] by (simp add: elems_ex_vec)
  with ins er wf_ex_vec env_ok_ex_env i show ?thesis by blast
qed

text \<open>
  C10.  On a non-empty vector \<^verbatim>\<open>PopBack\<close> and \<^verbatim>\<open>Erase\<close> keep the capacity and the block:
  \<^verbatim>\<open>PopBack\<close> only lowers the size by one; \<^verbatim>\<open>Erase\<close> at index \<open>i < size\<close> lowers the size by
  one, leaves the elements before \<open>i\<close> where they were and moves each element after \<open>i\<close> down by
  one position.
\<close>

theorem PopBack_Erase_frame:
  assumes "wf v m" "v_size v \<noteq> 0"
  shows "(\<exists>v'. PopBack v = Inr v' \<and> v_capacity v' = v_capacity v \<and> v_items v' = v_items v \<and>
            unat (v_size v') = unat (v_size v) - 1 \<and> slots v' m = slots v m) \<and>
         (i < unat (v_size v) \<longrightarrow>
            (\<exists>q v' m'. Erase E (ptr_add (v_begin v) i) v m = Inr (q, v', m') \<and>
               v_capacity v' = v_capacity v \<and> v_items v' = v_items v \<and>
               length (slots v' m') = length (slots v m) \<and>
               unat (v_size v') = unat (v_size v) - 1 \<and>
               (\<forall>j. j < i \<longrightarrow> elems v' m' ! j = elems v m ! j) \<and>
               (\<forall>j. i \<le> j \<and> j < unat (v_size v) - 1 \<longrightarrow> elems v' m' ! j = elems v m ! Suc j)))"
proof (intro conjI impI)
  have "unat (v_size v - 1) = unat (v_size v) - 1" using assms(2) by (rule unat_minus_one)
  then show "\<exists>v'. PopBack v = Inr v' \<and> v_capacity v' = v_capacity v \<and> v_items v' = v_items v \<and>
            unat (v_size v') = unat (v_size v) - 1 \<and> slots v' m = slots v m"
    using assms(2) by (simp add: PopBack_ok slots_def)
next
  assume i: "i < unat (v_size v)"
  from Erase_step [OF assms(1) i, of E] obtain q v' m' where
    e: "Erase E (ptr_add (v_begin v) i) v m = Inr (q, v', m')"
    and k: "v_capacity v' = v_capacity v" "v_items v' = v_items v"
      "length (slots v' m') = length (slots v m)" "unat (v_size v') = unat (v_size v) - 1"
    and el: "elems v' m' = take i (elems v m) @ drop (Suc i) (elems v m)"
    by blast
  have len: "length (elems v m) = unat (v_size v)" using assms(1) by (rule wf_length_elems)
  have li: "length (take i (elems v m)) = i" using len i by simp
  have a: "\<forall>j. j < i \<longrightarrow> elems v' m' ! j = elems v m ! j"
    using li by (simp add: el nth_append)
  have b: "\<forall>j. i \<le> j \<and> j < unat (v_size v) - 1 \<longrightarrow> elems v' m' ! j = elems v m ! Suc j"
  proof (intro allI impI)
    fix j assume j: "i \<le> j \<and> j < unat (v_size v) - 1"
    then have "elems v' m' ! j = drop (Suc i) (elems v m) ! (j - i)"
      using li by (simp add: el nth_append)
    also have "\<dots> = elems v m ! Suc j"
      using j len i by (simp add: nth_drop)
    finally show "elems v' m' ! j = elems v m ! Suc j" .
  qed
  show "\<exists>q v' m'. Erase E (ptr_add (v_begin v) i) v m = Inr (q, v', m') \<and>
               v_capacity v' = v_capacity v \<and> v_items v' = v_items v \<and>
               length (slots v' m') = length (slots v m) \<and>
               unat (v_size v') = unat (v_size v) - 1 \<and>
               (\<forall>j. j < i \<longrightarrow> elems v' m' ! j = elems v m ! j) \<and>
               (\<forall>j. i \<le> j \<and> j < unat (v_size v) - 1 \<longrightarrow> elems v' m' ! j = elems v m ! Suc j)"
    using e k a b by blast
qed

theorem PopBack_Erase_frame_witness:
  "wf ex_vec ex_mem \<and> v_size ex_vec \<noteq> 0 \<and>
   (\<exists>v'. PopBack ex_vec = Inr v' \<and> v_capacity v' = 4 \<and> unat (v_size v') = 2) \<and>
   (\<exists>q v' m'. Erase ex_env (ptr_add (v_begin ex_vec) 0) ex_vec ex_mem = Inr (q, v', m') \<and>
      v_capacity v' = 4 \<and> unat (v_size v') = 2 \<and> elems v' m' ! 0 = 2 \<and> elems v' m' ! 1 = 3)"
proof -
  have ne: "v_size ex_vec \<noteq> 0" by (simp add: ex_vec_def)
  have f: "unat (v_size ex_vec) = 3" "v_capacity ex_vec = 4" by (simp_all add: ex_vec_def)
  from PopBack_Erase_frame [OF wf_ex_vec ne, of 0 ex_env]
  obtain q v' m' where
    "Erase ex_env (ptr_add (v_begin ex_vec) 0) ex_vec ex_mem = Inr (q, v', m')"
    "v_capacity v' = 4" "unat (v_size v') = 2"
    "\<forall>j. 0 \<le> j \<and> j < 2 \<longrightarrow> elems v' m' ! j = elems ex_vec ex_mem ! Suc j"
    unfolding f by auto
  moreover from this have "elems v' m' ! 0 = 2 \<and> elems v' m' ! 1 = 3"
    by (simp add: elems_ex_vec)
  moreover from PopBack_Erase_frame [OF wf_ex_vec ne, of 0 ex_env]
  have "\<exists>v'. PopBack ex_vec = Inr v' \<and> v_capacity v' = 4 \<and> unat (v_size v') = 2"
    unfolding f by auto
  ultimately show ?thesis using wf_ex_vec ne by blast
qed

section \<open>Resize by cases\<close>

text \<open>
  C3.  \<^verbatim>\<open>Resize(new_size)\<close> by cases.  Equal to the size: nothing changes.  Between the size
  and the capacity: the size becomes \<open>new_size\<close>, the newly exposed slots hold the default
  value, the capacity, the block and the slots beyond \<open>new_size\<close> stay.  Above the capacity:
  the capacity becomes \<open>max(new_size, 2 \<times> capacity)\<close>, the size \<open>new_size\<close>, the old elements
  stay and every slot after them holds the default value (or the allocation fails).  Below
  the size: only the size changes; the store is untouched, so the vacated slots keep their
  values.
\<close>

theorem Resize_spec:
  assumes "wf v m"
  shows "(n = v_size v \<longrightarrow> Resize E n v m = Inr (v, m)) \<and>
         (v_size v < n \<and> n \<le> v_capacity v \<longrightarrow>
            (\<exists>m'. Resize E n v m = Inr (v\<lparr>v_size := n\<rparr>, m') \<and>
               elems (v\<lparr>v_size := n\<rparr>) m' =
                 elems v m @ replicate (unat n - unat (v_size v)) (Type_default E) \<and>
               length (slots v m') = length (slots v m) \<and>
               drop (unat n) (slots v m') = drop (unat n) (slots v m))) \<and>
         (v_capacity v < n \<and> obtainable E (max (unat n) (2 * unat (v_capacity v))) \<longrightarrow>
            (\<exists>v' m'. Resize E n v m = Inr (v', m') \<and>
               v_capacity v' = max n (v_capacity v * 2) \<and>
               unat (v_capacity v') = max (unat n) (2 * unat (v_capacity v)) \<and>
               v_size v' = n \<and>
               elems v' m' = elems v m @ replicate (unat n - unat (v_size v)) (Type_default E) \<and>
               slots v' m' =
                 elems v m @ replicate (max (unat n) (2 * unat (v_capacity v)) - unat (v_size v))
                               (Type_default E))) \<and>
         (v_capacity v < n \<and> \<not> obtainable E (max (unat n) (2 * unat (v_capacity v))) \<longrightarrow>
            Resize E n v m = Inl BadAlloc) \<and>
         (n < v_size v \<longrightarrow> Resize E n v m = Inr (v\<lparr>v_size := n\<rparr>, m))"
proof (intro conjI impI)
  assume "n = v_size v"
  then show "Resize E n v m = Inr (v, m)" by (simp add: Resize_same)
next
  assume "n < v_size v"
  with assms show "Resize E n v m = Inr (v\<lparr>v_size := n\<rparr>, m)" by (rule Resize_shrink)
next
  assume "v_capacity v < n \<and> \<not> obtainable E (max (unat n) (2 * unat (v_capacity v)))"
  with assms show "Resize E n v m = Inl BadAlloc" by (intro Resize_fail) simp_all
next
  assume a: "v_size v < n \<and> n \<le> v_capacity v"
  let ?s = "unat (v_size v)"
  let ?xs = "overwrite (slots v m) ?s (replicate (unat n - ?s) (Type_default E))"
  let ?m = "write_slots v ?xs m"
  have le: "?s \<le> unat n" "unat n \<le> unat (v_capacity v)"
    using a by (simp_all add: word_less_nat_alt word_le_nat_alt)
  from a assms have "v_capacity v \<noteq> 0" by auto
  with assms obtain b where b: "v_items v = Some b" using wf_items_Some by blast
  have ls: "length (slots v m) = unat (v_capacity v)" using assms by (rule wf_length_slots)
  have r: "Resize E n v m = Inr (v\<lparr>v_size := n\<rparr>, ?m)"
    using assms a by (intro Resize_expose) simp_all
  have sl: "slots v ?m = ?xs" using b by (intro slots_write_slots) simp_all
  have sl': "slots (v\<lparr>v_size := n\<rparr>) ?m = ?xs" using b by (intro slots_write_slots) simp_all
  have "elems (v\<lparr>v_size := n\<rparr>) ?m = take (unat n) ?xs"
    unfolding elems_def [of "v\<lparr>v_size := n\<rparr>"] sl' by simp
  also have "\<dots> = elems v m @ replicate (unat n - ?s) (Type_default E)"
    using le ls by (simp add: overwrite_def elems_def min_def)
  finally have el: "elems (v\<lparr>v_size := n\<rparr>) ?m =
                      elems v m @ replicate (unat n - ?s) (Type_default E)" .
  have len: "length (slots v ?m) = length (slots v m)"
    unfolding sl using le ls by simp
  have dr: "drop (unat n) (slots v ?m) = drop (unat n) (slots v m)"
    unfolding sl using le ls by (simp add: overwrite_def)
  show "\<exists>m'. Resize E n v m = Inr (v\<lparr>v_size := n\<rparr>, m') \<and>
               elems (v\<lparr>v_size := n\<rparr>) m' =
                 elems v m @ replicate (unat n - unat (v_size v)) (Type_default E) \<and>
               length (slots v m') = length (slots v m) \<and>
               drop (unat n) (slots v m') = drop (unat n) (slots v m)"
    using r el len dr by blast
next
  assume a: "v_capacity v < n \<and> obtainable E (max (unat n) (2 * unat (v_capacity v)))"
  let ?s = "unat (v_size v)"
  let ?k = "max (unat n) (2 * unat (v_capacity v))"
  let ?xs = "elems v m @ replicate (?k - ?s) (Type_default E)"
  let ?v = "v\<lparr>v_items := Some (fresh m), v_capacity := max n (v_capacity v * 2), v_size := n\<rparr>"
  have r: "Resize E n v m = Inr (?v, adopt v ?xs m)"
    using assms a by (intro Resize_grow) simp_all
  have g: "unat (max n (v_capacity v * 2)) = ?k"
    using Resize_grow_capacity(2) [OF assms, of n] a by simp
  have sl: "slots ?v (adopt v ?xs m) = ?xs" using assms by (intro slots_adopt) simp_all
  have len: "length (elems v m) = ?s" using assms by (rule wf_length_elems)
  have sn: "?s \<le> unat n"
    using a wf_size_le [OF assms] by (simp add: word_less_nat_alt)
  have "elems ?v (adopt v ?xs m) = take (unat n) ?xs"
    unfolding elems_def [of ?v] sl by simp
  also have "\<dots> = elems v m @ replicate (unat n - ?s) (Type_default E)"
    using len sn by (simp add: min_def)
  finally have el: "elems ?v (adopt v ?xs m) =
                      elems v m @ replicate (unat n - ?s) (Type_default E)" .
  show "\<exists>v' m'. Resize E n v m = Inr (v', m') \<and>
               v_capacity v' = max n (v_capacity v * 2) \<and>
               unat (v_capacity v') = max (unat n) (2 * unat (v_capacity v)) \<and>
               v_size v' = n \<and>
               elems v' m' = elems v m @ replicate (unat n - unat (v_size v)) (Type_default E) \<and>
               slots v' m' =
                 elems v m @ replicate (max (unat n) (2 * unat (v_capacity v)) - unat (v_size v))
                               (Type_default E)"
    using r g sl el by (intro exI [of _ ?v] exI [of _ "adopt v ?xs m"]) simp
qed

theorem Resize_spec_witness:
  "wf ex_vec ex_mem \<and>
   Resize ex_env 3 ex_vec ex_mem = Inr (ex_vec, ex_mem) \<and>
   (\<exists>m'. Resize ex_env 4 ex_vec ex_mem = Inr (ex_vec\<lparr>v_size := 4\<rparr>, m') \<and>
      elems (ex_vec\<lparr>v_size := 4\<rparr>) m' = [1, 2, 3, 0]) \<and>
   (\<exists>v' m'. Resize ex_env 5 ex_vec ex_mem = Inr (v', m') \<and> v_capacity v' = 8 \<and>
      v_size v' = 5 \<and> elems v' m' = [1, 2, 3, 0, 0]) \<and>
   Resize ex_env 1 ex_vec ex_mem = Inr (ex_vec\<lparr>v_size := 1\<rparr>, ex_mem)"
proof -
  have f: "v_size ex_vec = 3" "v_capacity ex_vec = 4" "Type_default ex_env = 0"
    by (simp_all add: ex_vec_def ex_env_def)
  have ob: "obtainable ex_env (max (unat (5 :: size_t)) (2 * unat (4 :: size_t)))"
    by (simp add: ex_env_def)
  have r: "replicate 2 (0 :: int) = [0, 0]" by (simp add: numeral_eq_Suc)
  have a: "Resize ex_env 3 ex_vec ex_mem = Inr (ex_vec, ex_mem)"
    using Resize_spec [OF wf_ex_vec, of 3 ex_env] by (simp add: f)
  have b: "\<exists>m'. Resize ex_env 4 ex_vec ex_mem = Inr (ex_vec\<lparr>v_size := 4\<rparr>, m') \<and>
      elems (ex_vec\<lparr>v_size := 4\<rparr>) m' = [1, 2, 3, 0]"
    using Resize_spec [OF wf_ex_vec, of 4 ex_env] by (auto simp: f elems_ex_vec)
  have c: "\<exists>v' m'. Resize ex_env 5 ex_vec ex_mem = Inr (v', m') \<and> v_capacity v' = 8 \<and>
      v_size v' = 5 \<and> elems v' m' = [1, 2, 3, 0, 0]"
    using Resize_spec [OF wf_ex_vec, of 5 ex_env] ob by (auto simp: f elems_ex_vec r)
  have d: "Resize ex_env 1 ex_vec ex_mem = Inr (ex_vec\<lparr>v_size := 1\<rparr>, ex_mem)"
    using Resize_spec [OF wf_ex_vec, of 1 ex_env] by (simp add: f)
  from a b c d wf_ex_vec show ?thesis by blast
qed

section \<open>The checked accessor\<close>

lemma then_do_oor:
  "(then_do r f = Inl OutOfRange) = (r = Inl OutOfRange \<or> (\<exists>x. r = Inr x \<and> f x = Inl OutOfRange))"
  by (cases r) simp_all

lemma load_oor [simp]: "load p m \<noteq> Inl OutOfRange"
  by (simp add: load_def split: option.splits)

lemma store_oor [simp]: "store p x m \<noteq> Inl OutOfRange"
  by (simp add: store_def split: option.splits)

lemma std_copy_oor [simp]: "std_copy f l d m \<noteq> Inl OutOfRange"
proof (induction f l d m rule: std_copy.induct)
  case (1 first lst d_first m)
  then show ?case by (subst std_copy.simps) (auto simp: then_do_oor)
qed

lemma std_move_oor [simp]: "std_move E f l d m \<noteq> Inl OutOfRange"
proof (induction E f l d m rule: std_move.induct)
  case (1 E first lst d_first m)
  then show ?case by (subst std_move.simps) (auto simp: then_do_oor)
qed

lemma std_copy_backward_oor [simp]: "std_copy_backward f l d m \<noteq> Inl OutOfRange"
proof (induction f l d m rule: std_copy_backward.induct)
  case (1 first lst d_last m)
  then show ?case by (subst std_copy_backward.simps) (auto simp: then_do_oor)
qed

lemma std_fill_oor [simp]: "std_fill f l x m \<noteq> Inl OutOfRange"
proof (induction f l x m rule: std_fill.induct)
  case (1 first lst v m)
  then show ?case by (subst std_fill.simps) (auto simp: then_do_oor)
qed

lemma std_generate_oor [simp]: "std_generate f l x m \<noteq> Inl OutOfRange"
proof (induction f l x m rule: std_generate.induct)
  case (1 first lst g m)
  then show ?case by (subst std_generate.simps) (auto simp: then_do_oor)
qed

lemma copy_init_oor [simp]: "copy_init xs d m \<noteq> Inl OutOfRange"
  by (induction xs arbitrary: d m) (auto simp: then_do_oor)

lemma equal_loop_oor [simp]: "equal_loop f l f2 m \<noteq> Inl OutOfRange"
proof (induction f l f2 m rule: equal_loop.induct)
  case (1 first1 last1 first2 m)
  then show ?case by (subst equal_loop.simps) (auto simp: then_do_oor)
qed

lemma std_lexicographical_compare_oor [simp]:
  "std_lexicographical_compare f l f2 l2 m \<noteq> Inl OutOfRange"
proof (induction f l f2 l2 m rule: std_lexicographical_compare.induct)
  case (1 first1 last1 first2 last2 m)
  then show ?case by (subst std_lexicographical_compare.simps) (auto simp: then_do_oor)
qed

lemma ArrayPtr_new_oor [simp]: "ArrayPtr_new E n m \<noteq> Inl OutOfRange"
  by (simp add: ArrayPtr_new_def)

lemma Reserve_oor [simp]: "Reserve E n v m \<noteq> Inl OutOfRange"
  by (auto simp: Reserve_def then_do_oor ArrayPtr_swap_def)

lemma Resize_oor [simp]: "Resize E n v m \<noteq> Inl OutOfRange"
  by (auto simp: Resize_def then_do_oor Let_def)

lemma read_ref_oor [simp]: "read_ref r m \<noteq> Inl OutOfRange"
  by (simp add: read_ref_def split: ref.splits)

lemma move_out_oor [simp]: "move_out E r x m \<noteq> Inl OutOfRange"
  by (simp add: move_out_def split: ref.splits)

lemma PushBack_oor [simp]: "PushBack E r v m \<noteq> Inl OutOfRange"
  by (auto simp: PushBack_def then_do_oor Let_def)

lemma PushBack_rv_oor [simp]: "PushBack_rv E r v m \<noteq> Inl OutOfRange"
  by (auto simp: PushBack_rv_def then_do_oor Let_def)

lemma Insert_oor [simp]: "Insert E pos x v m \<noteq> Inl OutOfRange"
  by (auto simp: Insert_def then_do_oor Let_def ArrayPtr_swap_def)

lemma Erase_oor [simp]: "Erase E pos v m \<noteq> Inl OutOfRange"
  by (auto simp: Erase_def then_do_oor Let_def)

lemma SimpleVector_fill_oor [simp]: "SimpleVector_fill E n x m \<noteq> Inl OutOfRange"
  by (auto simp: SimpleVector_fill_def then_do_oor)

lemma SimpleVector_init_oor [simp]: "SimpleVector_init E init m \<noteq> Inl OutOfRange"
  by (auto simp: SimpleVector_init_def then_do_oor)

lemma SimpleVector_copy_oor [simp]: "SimpleVector_copy E other m \<noteq> Inl OutOfRange"
  by (auto simp: SimpleVector_copy_def then_do_oor Let_def ArrayPtr_swap_def)

lemma operator_eq_oor [simp]: "operator_eq lhs rhs m \<noteq> Inl OutOfRange"
  by (simp add: operator_eq_def std_equal_def)

lemma operator_lt_oor [simp]: "operator_lt lhs rhs m \<noteq> Inl OutOfRange"
  by (simp add: operator_lt_def)

text \<open>
  C5.  \<^verbatim>\<open>At(index)\<close> raises the out-of-range error exactly when \<open>index \<ge> size\<close>; otherwise it
  returns the reference to slot \<open>index\<close>, which holds the element at that index.  So
  \<^verbatim>\<open>At(size())\<close> always raises and \<^verbatim>\<open>At(size() - 1)\<close> on a non-empty vector never does.  No
  other member ever raises the out-of-range error.
\<close>

theorem At_spec:
  assumes "wf v m"
  shows "(At index v = Inl OutOfRange \<longleftrightarrow> v_size v \<le> index) \<and>
         (index < v_size v \<longrightarrow>
            At index v = Inr (subscript (v_items v) index) \<and>
            load (subscript (v_items v) index) m = Inr (elems v m ! unat index)) \<and>
         At (v_size v) v = Inl OutOfRange \<and>
         (v_size v \<noteq> 0 \<longrightarrow> At (v_size v - 1) v = Inr (subscript (v_items v) (v_size v - 1))) \<and>
         operator_index index u \<noteq> Inl OutOfRange \<and>
         Reserve E n u h \<noteq> Inl OutOfRange \<and> Resize E n u h \<noteq> Inl OutOfRange \<and>
         PushBack E r u h \<noteq> Inl OutOfRange \<and> PushBack_rv E r u h \<noteq> Inl OutOfRange \<and>
         Insert E pos x u h \<noteq> Inl OutOfRange \<and>
         PopBack u \<noteq> Inl OutOfRange \<and> Erase E pos u h \<noteq> Inl OutOfRange \<and>
         SimpleVector_fill E n x h \<noteq> Inl OutOfRange \<and>
         SimpleVector_sized E n h \<noteq> Inl OutOfRange \<and>
         SimpleVector_reserved E obj h \<noteq> Inl OutOfRange \<and>
         SimpleVector_init E init h \<noteq> Inl OutOfRange \<and>
         SimpleVector_copy E u h \<noteq> Inl OutOfRange \<and>
         SimpleVector_move u \<noteq> Inl OutOfRange \<and>
         copy_assign E this rhs w \<noteq> Inl OutOfRange \<and>
         construct_copy E this rhs w \<noteq> Inl OutOfRange \<and>
         construct_move this rhs w \<noteq> Inl OutOfRange \<and>
         operator_eq u u' h \<noteq> Inl OutOfRange \<and> operator_ne u u' h \<noteq> Inl OutOfRange \<and>
         operator_lt u u' ho \<noteq> Inl OutOfRange \<and> operator_le u u' ho \<noteq> Inl OutOfRange \<and>
         operator_gt u u' ho \<noteq> Inl OutOfRange \<and> operator_ge u u' ho \<noteq> Inl OutOfRange"
proof -
  have a: "(At index v = Inl OutOfRange) = (v_size v \<le> index)"
    by (simp add: At_def)
  have b: "At index v = Inr (subscript (v_items v) index) \<and>
           load (subscript (v_items v) index) m = Inr (elems v m ! unat index)"
    if lt: "index < v_size v"
  proof -
    have i: "unat index < unat (v_size v)" using lt by (simp add: word_less_nat_alt)
    with wf_size_le [OF assms] have "unat index < unat (v_capacity v)" by simp
    then have "load (Ptr (v_items v) (unat index)) m = Inr (slots v m ! unat index)"
      using assms by (intro load_slot)
    with i lt show ?thesis by (auto simp: At_def subscript_def elems_def)
  qed
  have c: "At (v_size v) v = Inl OutOfRange" by (simp add: At_def)
  have d: "At (v_size v - 1) v = Inr (subscript (v_items v) (v_size v - 1))" if "v_size v \<noteq> 0"
  proof -
    have "unat (v_size v - 1) = unat (v_size v) - 1" using that by (rule unat_minus_one)
    moreover have "0 < unat (v_size v)" using that by (simp add: unat_gt_0)
    ultimately have "v_size v - 1 < v_size v" by (simp add: word_less_nat_alt)
    then show ?thesis by (auto simp: At_def)
  qed
  have e: "operator_index index u \<noteq> Inl OutOfRange" "PopBack u \<noteq> Inl OutOfRange"
    "SimpleVector_sized E n h \<noteq> Inl OutOfRange" "SimpleVector_reserved E obj h \<noteq> Inl OutOfRange"
    "SimpleVector_move u \<noteq> Inl OutOfRange"
    by (simp_all add: operator_index_def PopBack_def SimpleVector_sized_def
          SimpleVector_reserved_def SimpleVector_move_def ArrayPtr_move_assign_def Let_def)
  have f: "copy_assign E this rhs w \<noteq> Inl OutOfRange"
    "construct_copy E this rhs w \<noteq> Inl OutOfRange"
    "construct_move this rhs w \<noteq> Inl OutOfRange"
    by (auto simp: copy_assign_def construct_copy_def construct_move_def then_do_oor
          SimpleVector_move_def ArrayPtr_move_assign_def Let_def split: prod.splits)
  have g: "operator_ne u u' h \<noteq> Inl OutOfRange" "operator_le u u' ho \<noteq> Inl OutOfRange"
    "operator_gt u u' ho \<noteq> Inl OutOfRange" "operator_ge u u' ho \<noteq> Inl OutOfRange"
    by (auto simp: operator_ne_def operator_le_def operator_gt_def operator_ge_def then_do_oor)
  show ?thesis
    using a b c d e f g by simp
qed

theorem At_spec_witness:
  "wf ex_vec ex_mem \<and> At 3 ex_vec = Inl OutOfRange \<and> At 7 ex_vec = Inl OutOfRange \<and>
   At 2 ex_vec = Inr (Ptr (Some 0) 2) \<and> load (Ptr (Some 0) 2) ex_mem = Inr 3"
proof -
  have f: "v_size ex_vec = 3" "v_items ex_vec = Some 0" by (simp_all add: ex_vec_def)
  have "At 7 ex_vec = Inl OutOfRange"
    using At_spec [OF wf_ex_vec, of 7, THEN conjunct1] by (simp add: f)
  moreover have "At 3 ex_vec = Inl OutOfRange"
    using At_spec [OF wf_ex_vec, of 3, THEN conjunct1] by (simp add: f)
  moreover have "At 2 ex_vec = Inr (Ptr (Some 0) 2) \<and> load (Ptr (Some 0) 2) ex_mem = Inr 3"
    using At_spec [OF wf_ex_vec, of 2, THEN conjunct2, THEN conjunct1]
    by (simp add: f subscript_def elems_ex_vec)
  ultimately show ?thesis using wf_ex_vec by simp
qed

section \<open>Comparison operators\<close>

lemma take_drop_Cons:
  "k < length xs \<Longrightarrow> take (Suc n) (drop k xs) = xs ! k # take n (drop (Suc k) xs)"
  by (simp add: Cons_nth_drop_Suc [symmetric])

lemma equal_loop_blocks:
  "blocks m a = Some src \<Longrightarrow> blocks m b = Some dst \<Longrightarrow> f \<le> l \<Longrightarrow> l \<le> length src \<Longrightarrow>
   k + (l - f) \<le> length dst \<Longrightarrow>
   equal_loop (Ptr (Some a) f) (Ptr (Some a) l) (Ptr (Some b) k) m =
     Inr (take (l - f) (drop f src) = take (l - f) (drop k dst))"
proof (induction "l - f" arbitrary: f k)
  case 0
  then show ?case by (subst equal_loop.simps) simp
next
  case (Suc n)
  from Suc.hyps(2) have fl: "f < l" and n: "l - f = Suc n" "l - Suc f = n" by simp_all
  have ih: "equal_loop (Ptr (Some a) (Suc f)) (Ptr (Some a) l) (Ptr (Some b) (Suc k)) m =
            Inr (take (l - Suc f) (drop (Suc f) src) = take (l - Suc f) (drop (Suc k) dst))"
    using Suc.prems Suc.hyps(2) fl by (intro Suc.hyps(1)) auto
  have s: "take (Suc n) (drop f src) = src ! f # take n (drop (Suc f) src)"
    using Suc.prems fl by (intro take_drop_Cons) simp
  have d: "take (Suc n) (drop k dst) = dst ! k # take n (drop (Suc k) dst)"
    using Suc.prems fl by (intro take_drop_Cons) simp
  have lk: "k < length dst" using Suc.prems fl by simp
  have lf: "f < length src" using Suc.prems fl by simp
  show ?case
    using Suc.prems(1,2) fl lk lf ih
    by (subst equal_loop.simps) (simp add: load_block ptr_add_def n s d)
qed

lemma std_distance_same [simp]: "std_distance p p = 0"
  by (simp add: std_distance_def)

lemma lexord_Nil_iff: "(([], ys) \<in> lexord r) = (ys \<noteq> [])"
  by (cases ys) simp_all

lemma std_distance_vec: "std_distance (v_begin v) (v_end v) = v_size v"
  by (simp add: std_distance_def v_begin_def v_end_def Get_def ptr_add_def)

lemma range_empty: "v_size v = 0 \<Longrightarrow> v_end v = v_begin v"
  by (simp add: v_begin_def v_end_def Get_def ptr_add_def)

lemma range_Some:
  "v_items v = Some a \<Longrightarrow> v_begin v = Ptr (Some a) 0 \<and> v_end v = Ptr (Some a) (unat (v_size v))"
  by (simp add: v_begin_def v_end_def Get_def ptr_add_def)

lemma wf_nonempty_Some:
  assumes "wf v m" "v_size v \<noteq> 0"
  shows "\<exists>a. v_items v = Some a \<and> blocks m a = Some (slots v m)"
proof -
  from assms have "v_capacity v \<noteq> 0" by (auto simp: wf_def)
  with assms obtain a where "v_items v = Some a" using wf_items_Some by blast
  with assms show ?thesis by (auto simp: wf_Some)
qed

lemma elems_empty: "v_size v = 0 \<Longrightarrow> elems v m = []"
  by (simp add: elems_def)

lemma operator_eq_elems:
  assumes "wf lhs m" "wf rhs m"
  shows "operator_eq lhs rhs m = Inr (elems lhs m = elems rhs m)"
proof (cases "v_size lhs = v_size rhs")
  case False
  then have "unat (v_size lhs) \<noteq> unat (v_size rhs)" by (simp add: word_unat_eq_iff)
  then have "length (elems lhs m) \<noteq> length (elems rhs m)"
    using assms by (simp add: wf_length_elems)
  then have "elems lhs m \<noteq> elems rhs m" by auto
  with False show ?thesis
    by (simp add: operator_eq_def std_equal_def std_distance_vec)
next
  case True
  show ?thesis
  proof (cases "v_size lhs = 0")
    case z: True
    with True have "v_size rhs = 0" by simp
    with z show ?thesis
      by (simp add: operator_eq_def std_equal_def std_distance_vec range_empty elems_empty
            equal_loop.simps [of "v_begin lhs" "v_begin lhs"])
  next
    case nz: False
    with True have nz': "v_size rhs \<noteq> 0" by simp
    from wf_nonempty_Some [OF assms(1) nz] obtain a where
      a: "v_items lhs = Some a" "blocks m a = Some (slots lhs m)" by blast
    from wf_nonempty_Some [OF assms(2) nz'] obtain b where
      b: "v_items rhs = Some b" "blocks m b = Some (slots rhs m)" by blast
    let ?s = "unat (v_size lhs)"
    have l1: "?s \<le> length (slots lhs m)"
      using wf_size_le [OF assms(1)] wf_length_slots [OF assms(1)] by simp
    have l2: "?s \<le> length (slots rhs m)"
      using wf_size_le [OF assms(2)] wf_length_slots [OF assms(2)] True by simp
    have "equal_loop (Ptr (Some a) 0) (Ptr (Some a) ?s) (Ptr (Some b) 0) m =
          Inr (take (?s - 0) (drop 0 (slots lhs m)) = take (?s - 0) (drop 0 (slots rhs m)))"
      using a b l1 l2 by (intro equal_loop_blocks) simp_all
    then show ?thesis
      using True a b
      by (simp add: operator_eq_def std_equal_def std_distance_def range_Some elems_def)
  qed
qed

lemma lex_first_empty:
  "std_lexicographical_compare p p q q' m = Inr (q \<noteq> q')"
  by (subst std_lexicographical_compare.simps) simp

lemma lex_second_empty:
  "std_lexicographical_compare p p' q q m = Inr False"
  by (subst std_lexicographical_compare.simps) simp

lemma lex_blocks:
  "blocks m a = Some src \<Longrightarrow> blocks m b = Some dst \<Longrightarrow> f \<le> l \<Longrightarrow> l \<le> length src \<Longrightarrow>
   k \<le> l2 \<Longrightarrow> l2 \<le> length dst \<Longrightarrow>
   std_lexicographical_compare (Ptr (Some a) f) (Ptr (Some a) l) (Ptr (Some b) k) (Ptr (Some b) l2) m =
     Inr ((take (l - f) (drop f src), take (l2 - k) (drop k dst)) \<in> lexord {(x, y). x < y})"
proof (induction "l - f" arbitrary: f k)
  case 0
  then have "f = l" by simp
  moreover have "(take (l2 - k) (drop k dst) \<noteq> []) = (k \<noteq> l2)"
    using 0 by auto
  ultimately show ?case by (simp add: lex_first_empty lexord_Nil_iff del: lexord_Nil_left)
next
  case (Suc n)
  from Suc.hyps(2) have fl: "f < l" and n: "l - f = Suc n" "l - Suc f = n" by simp_all
  have lf: "f < length src" using Suc.prems fl by simp
  have s: "take (Suc n) (drop f src) = src ! f # take n (drop (Suc f) src)"
    using lf by (intro take_drop_Cons)
  show ?case
  proof (cases "k = l2")
    case True
    then show ?thesis by (simp add: lex_second_empty n s)
  next
    case False
    with Suc.prems have kl: "k < l2" and lk: "k < length dst" by simp_all
    obtain j where j: "l2 - k = Suc j" "l2 - Suc k = j" using kl by (cases "l2 - k") auto
    have d: "take (Suc j) (drop k dst) = dst ! k # take j (drop (Suc k) dst)"
      using lk by (intro take_drop_Cons)
    have ih: "std_lexicographical_compare (Ptr (Some a) (Suc f)) (Ptr (Some a) l)
                (Ptr (Some b) (Suc k)) (Ptr (Some b) l2) m =
              Inr ((take (l - Suc f) (drop (Suc f) src), take (l2 - Suc k) (drop (Suc k) dst))
                     \<in> lexord {(x, y). x < y})"
      using Suc.prems Suc.hyps(2) fl kl by (intro Suc.hyps(1)) auto
    show ?thesis
      using Suc.prems(1,2) fl kl lf lk ih
      by (subst std_lexicographical_compare.simps)
         (auto simp: load_block ptr_add_def n s j d)
  qed
qed

lemma operator_lt_elems:
  assumes "wf lhs m" "wf rhs m"
  shows "operator_lt lhs rhs m = Inr ((elems lhs m, elems rhs m) \<in> lexord {(x, y). x < y})"
proof (cases "v_size lhs = 0")
  case True
  have "(v_begin rhs \<noteq> v_end rhs) = (elems rhs m \<noteq> [])"
  proof (cases "v_size rhs = 0")
    case z: True
    then show ?thesis by (simp add: range_empty elems_empty)
  next
    case nz: False
    then have "0 < unat (v_size rhs)" by (simp add: unat_gt_0)
    moreover have "length (elems rhs m) = unat (v_size rhs)" using assms(2) by (rule wf_length_elems)
    ultimately have "elems rhs m \<noteq> []" by auto
    moreover have "v_begin rhs \<noteq> v_end rhs"
      using \<open>0 < unat (v_size rhs)\<close> by (simp add: v_begin_def v_end_def Get_def ptr_add_def)
    ultimately show ?thesis by simp
  qed
  with True show ?thesis
    by (simp add: operator_lt_def range_empty elems_empty [of lhs] lex_first_empty lexord_Nil_iff
          del: lexord_Nil_left)
next
  case nz: False
  from wf_nonempty_Some [OF assms(1) nz] obtain a where
    a: "v_items lhs = Some a" "blocks m a = Some (slots lhs m)" by blast
  show ?thesis
  proof (cases "v_size rhs = 0")
    case True
    then show ?thesis
      by (simp add: operator_lt_def range_empty elems_empty lex_second_empty)
  next
    case nz': False
    from wf_nonempty_Some [OF assms(2) nz'] obtain b where
      b: "v_items rhs = Some b" "blocks m b = Some (slots rhs m)" by blast
    let ?s = "unat (v_size lhs)"
    let ?t = "unat (v_size rhs)"
    have l1: "?s \<le> length (slots lhs m)"
      using wf_size_le [OF assms(1)] wf_length_slots [OF assms(1)] by simp
    have l2: "?t \<le> length (slots rhs m)"
      using wf_size_le [OF assms(2)] wf_length_slots [OF assms(2)] by simp
    have "std_lexicographical_compare (Ptr (Some a) 0) (Ptr (Some a) ?s)
            (Ptr (Some b) 0) (Ptr (Some b) ?t) m =
          Inr ((take (?s - 0) (drop 0 (slots lhs m)), take (?t - 0) (drop 0 (slots rhs m)))
                 \<in> lexord {(x, y). x < y})"
      using a b l1 l2 by (intro lex_blocks) simp_all
    then show ?thesis
      using a b by (simp add: operator_lt_def range_Some elems_def)
  qed
qed

text \<open>
  C9.  \<^verbatim>\<open>operator==\<close> is equality of the element sequences: same size and equal elements at
  every index below the size.  \<^verbatim>\<open>operator<\<close> is the lexicographic order of the element
  sequences under the elements' less-than, and \<^verbatim>\<open>!=\<close>, \<^verbatim>\<open><=\<close>, \<^verbatim>\<open>>\<close>, \<^verbatim>\<open>>=\<close> are derived from
  the two in the standard way.  So equality is reflexive and symmetric.
\<close>

theorem comparison_spec:
  assumes "wf lhs m" "wf rhs m"
  shows "operator_eq lhs rhs m = Inr (elems lhs m = elems rhs m) \<and>
         ((elems lhs m = elems rhs m) =
            (v_size lhs = v_size rhs \<and>
             (\<forall>i. i < unat (v_size lhs) \<longrightarrow> elems lhs m ! i = elems rhs m ! i))) \<and>
         operator_lt lhs rhs m = Inr ((elems lhs m, elems rhs m) \<in> lexord {(x, y). x < y}) \<and>
         operator_lt lhs rhs m = Inr (elems lhs m < elems rhs m) \<and>
         operator_ne lhs rhs m = Inr (elems lhs m \<noteq> elems rhs m) \<and>
         operator_le lhs rhs m = Inr (elems lhs m \<le> elems rhs m) \<and>
         operator_gt lhs rhs m = Inr (elems rhs m < elems lhs m) \<and>
         operator_ge lhs rhs m = Inr (elems rhs m \<le> elems lhs m) \<and>
         operator_eq lhs lhs m = Inr True \<and>
         operator_eq lhs rhs m = operator_eq rhs lhs m"
proof -
  have len: "length (elems lhs m) = unat (v_size lhs)" "length (elems rhs m) = unat (v_size rhs)"
    using assms by (simp_all add: wf_length_elems)
  have e: "(elems lhs m = elems rhs m) =
            (v_size lhs = v_size rhs \<and>
             (\<forall>i. i < unat (v_size lhs) \<longrightarrow> elems lhs m ! i = elems rhs m ! i))"
    using len by (auto simp: list_eq_iff_nth_eq word_unat_eq_iff)
  have lt: "operator_lt lhs rhs m = Inr (elems lhs m < elems rhs m)"
    and gt: "operator_lt rhs lhs m = Inr (elems rhs m < elems lhs m)"
    using assms by (simp_all add: operator_lt_elems list_less_def)
  have le: "operator_le lhs rhs m = Inr (elems lhs m \<le> elems rhs m)"
    by (simp add: operator_le_def gt not_less)
  have ge: "operator_ge lhs rhs m = Inr (elems rhs m \<le> elems lhs m)"
    by (simp add: operator_ge_def lt not_less)
  have sym: "operator_eq lhs rhs m = operator_eq rhs lhs m"
    using assms by (auto simp: operator_eq_elems)
  show ?thesis
    using assms e lt gt le ge sym
    by (simp add: operator_eq_elems operator_lt_elems operator_ne_def operator_gt_def)
qed

theorem comparison_spec_witness:
  "wf ex_vec ex_mem \<and> wf ex_vec_124 ex_mem \<and> wf ex_vec_12 ex_mem \<and>
   operator_lt ex_vec ex_vec_124 ex_mem = Inr True \<and>
   operator_lt ex_vec_12 ex_vec ex_mem = Inr True \<and>
   operator_eq ex_vec ex_vec_124 ex_mem = Inr False \<and>
   operator_eq ex_vec ex_vec ex_mem = Inr True \<and>
   operator_ge ex_vec ex_vec_124 ex_mem = Inr False"
proof -
  have a: "(([1, 2, 3], [1, 2, 4]) \<in> lexord {(x, y). x < (y :: int)})"
    "(([1, 2], [1, 2, 3]) \<in> lexord {(x, y). x < (y :: int)})"
    by simp_all
  have "operator_lt ex_vec ex_vec_124 ex_mem = Inr True"
    using comparison_spec [OF wf_ex_vec wf_ex_vec_124] a
    by (simp add: elems_ex_vec elems_ex_vec_124)
  moreover have "operator_lt ex_vec_12 ex_vec ex_mem = Inr True"
    using comparison_spec [OF wf_ex_vec_12 wf_ex_vec] a
    by (simp add: elems_ex_vec elems_ex_vec_12)
  moreover have "operator_eq ex_vec ex_vec_124 ex_mem = Inr False"
    using comparison_spec [OF wf_ex_vec wf_ex_vec_124]
    by (simp add: elems_ex_vec elems_ex_vec_124)
  moreover have "operator_eq ex_vec ex_vec ex_mem = Inr True"
    using comparison_spec [OF wf_ex_vec wf_ex_vec] by simp
  moreover have "operator_ge ex_vec ex_vec_124 ex_mem = Inr False"
    using comparison_spec [OF wf_ex_vec wf_ex_vec_124] a
    by (simp add: elems_ex_vec elems_ex_vec_124 list_le_def list_less_def)
  ultimately show ?thesis
    using wf_ex_vec wf_ex_vec_124 wf_ex_vec_12 by simp
qed

section \<open>Constructors\<close>

lemma adopt_default:
  "adopt SimpleVector_default xs m =
     m\<lparr>blocks := (blocks m)(fresh m \<mapsto> xs), fresh := Suc (fresh m)\<rparr>"
  by (simp add: adopt_def ArrayPtr_release_def SimpleVector_default_def)




lemma SimpleVector_reserved_zero:
  "SimpleVector_reserved E (Reserve_proxy 0) m = Inr (SimpleVector_default, m)"
  by (simp add: SimpleVector_reserved_def Reserve_proxy_def Reserve_def SimpleVector_default_def)

lemma SimpleVector_reserved_ok:
  assumes "n \<noteq> 0" "obtainable E (unat n)"
  shows "SimpleVector_reserved E (Reserve_proxy n) m =
           Inr (\<lparr>v_size = 0, v_capacity = n, v_items = Some (fresh m)\<rparr>,
                adopt SimpleVector_default (replicate (unat n) (Type_default E)) m)"
proof -
  have "v_capacity SimpleVector_default < n"
    using assms(1) by (simp add: SimpleVector_default_def word_greater_zero_iff)
  from Reserve_adopt [OF wf_default this, of E m] assms(2) show ?thesis
    by (simp add: SimpleVector_reserved_def Reserve_proxy_def elems_default)
       (simp add: SimpleVector_default_def)
qed

lemma SimpleVector_copy_fail:
  "\<not> obtainable E (unat (v_capacity other)) \<Longrightarrow> SimpleVector_copy E other m = Inl BadAlloc"
  by (simp add: SimpleVector_copy_def ArrayPtr_new_def SimpleVector_default_def)

lemma SimpleVector_copy_ok:
  assumes "wf other m" "obtainable E (unat (v_capacity other))"
  shows "SimpleVector_copy E other m =
           Inr (\<lparr>v_size = v_size other, v_capacity = v_capacity other, v_items = Some (fresh m)\<rparr>,
                adopt SimpleVector_default
                  (elems other m @
                   replicate (unat (v_capacity other) - unat (v_size other)) (Type_default E)) m)"
proof -
  let ?b = "fresh m"
  let ?c = "unat (v_capacity other)"
  let ?s = "unat (v_size other)"
  let ?d = "Type_default E"
  let ?m1 = "m\<lparr>blocks := (blocks m)(?b \<mapsto> replicate ?c ?d), fresh := Suc ?b\<rparr>"
  let ?xs = "elems other m @ replicate (?c - ?s) ?d"
  have new: "ArrayPtr_new E (v_capacity other) m = Inr (Some ?b, ?m1)"
    using assms(2) by (simp add: ArrayPtr_new_def)
  have sc: "?s \<le> ?c" using assms(1) by (rule wf_size_le)
  have len: "length (elems other m) = ?s" using assms(1) by (rule wf_length_elems)
  have cp: "(if \<not> IsEmpty other then std_copy (v_begin other) (v_end other) (Ptr (Some ?b) 0) ?m1
             else Inr ?m1) = Inr (?m1\<lparr>blocks := (blocks ?m1)(?b \<mapsto> ?xs)\<rparr>)"
  proof (cases "v_size other = 0")
    case True
    then have "?xs = replicate ?c ?d" by (simp add: elems_empty)
    moreover have "?m1\<lparr>blocks := (blocks ?m1)(?b \<mapsto> replicate ?c ?d)\<rparr> = ?m1" by simp
    ultimately show ?thesis using True by (simp add: IsEmpty_def del: fun_upd_apply)
  next
    case False
    from wf_nonempty_Some [OF assms(1) False] obtain a where
      a: "v_items other = Some a" "blocks m a = Some (slots other m)" by blast
    have ab: "a < ?b" using assms(1) a by (simp add: wf_Some)
    have ls: "length (slots other m) = ?c" using assms(1) by (rule wf_length_slots)
    have "std_copy (Ptr (Some a) 0) (Ptr (Some a) ?s) (Ptr (Some ?b) 0) ?m1 =
          Inr (?m1\<lparr>blocks := (blocks ?m1)(?b \<mapsto>
                 overwrite (replicate ?c ?d) 0 (take (?s - 0) (drop 0 (slots other m))))\<rparr>)"
      using a ab sc ls by (intro std_copy_blocks) simp_all
    moreover have "overwrite (replicate ?c ?d) 0 (elems other m) = ?xs"
      using overwrite_tail' [of 0 "[]" "elems other m" ?c ?d] len sc by simp
    ultimately show ?thesis
      using False a by (simp add: IsEmpty_def range_Some elems_def del: fun_upd_apply)
  qed
  have e: "?m1\<lparr>blocks := (blocks ?m1)(?b \<mapsto> ?xs)\<rparr> = adopt SimpleVector_default ?xs m"
    by (simp add: adopt_default)
  show ?thesis
    using new cp e
    by (cases "IsEmpty other")
       (simp_all add: SimpleVector_copy_def Let_def Get_def ArrayPtr_swap_def ArrayPtr_release_def
          SimpleVector_default_def del: fun_upd_apply)
qed

lemma wf_fresh_block:
  "v_items v = Some (fresh m) \<Longrightarrow> v_size v \<le> v_capacity v \<Longrightarrow> unat (v_capacity v) < 2 ^ 63 \<Longrightarrow>
   length xs = unat (v_capacity v) \<Longrightarrow> wf v (adopt SimpleVector_default xs m)"
  using wf_adopt [OF wf_default [of m], of v xs] by simp

lemma slots_fresh_block:
  "v_items v = Some (fresh m) \<Longrightarrow> slots v (adopt SimpleVector_default xs m) = xs"
  using slots_adopt [OF wf_default [of m], of v xs] by simp

section \<open>What a member call may change in the store\<close>

lemma frame_same: "wf v' m \<Longrightarrow> v_items v' = v_items v \<Longrightarrow> frame v m v' m"
  by (simp add: frame_def)

lemma frame_write:
  "wf v' (write_slots v xs m) \<Longrightarrow> v_items v' = v_items v \<Longrightarrow> frame v m v' (write_slots v xs m)"
  by (simp add: frame_def blocks_write_slots)

lemma frame_adopt:
  "wf v' (adopt v xs m) \<Longrightarrow> v_items v' = Some (fresh m) \<Longrightarrow> frame v m v' (adopt v xs m)"
  by (auto simp: frame_def blocks_adopt)

lemma wf_size_update:
  "wf v m \<Longrightarrow> n \<le> v_capacity v \<Longrightarrow> wf (v\<lparr>v_size := n\<rparr>) m"
  by (auto simp: wf_def split: option.splits)

lemma PushBack_frame:
  assumes "wf v m" "env_ok E" "PushBack E (Local x) v m = Inr (v', m')"
  shows "frame v m v' m'"
proof (cases "v_size v = v_capacity v")
  case False
  from PushBack_room [OF assms(1) False, of E x] assms(3)
  have "v' = v\<lparr>v_size := v_size v + 1\<rparr>"
    "m' = write_slots v ((slots v m)[unat (v_size v) := x]) m" by simp_all
  with PushBack_step(1) [OF assms] show ?thesis
    by (auto intro!: frame_write)
next
  case True
  let ?k = "if unat (v_capacity v) = 0 then 1 else 2 * unat (v_capacity v)"
  have ob: "obtainable E ?k"
  proof (rule ccontr)
    assume "\<not> obtainable E ?k"
    then have "PushBack E (Local x) v m = Inl BadAlloc"
      using assms(1) True by (intro PushBack_fail)
    with assms(3) show False by simp
  qed
  from PushBack_grow [OF assms(1) True ob, of x] assms(3)
  have "v_items v' = Some (fresh m)"
    "m' = adopt v (elems v m @ x # replicate (?k - Suc (unat (v_size v))) (Type_default E)) m"
    by auto
  with PushBack_step(1) [OF assms] show ?thesis
    by (auto intro!: frame_adopt)
qed

lemma Insert_assert:
  "\<not> i \<le> unat (v_size v) \<Longrightarrow> Insert E (ptr_add (v_begin v) i) x v m = Inl AssertFailed"
  by (simp add: Insert_def v_begin_def Get_def ptr_add_def ptr_le_def)

lemma Insert_frame:
  assumes "wf v m" "env_ok E" "Insert E (ptr_add (v_begin v) i) x v m = Inr (p, v', m')"
  shows "frame v m v' m'"
proof -
  let ?n = "if v_size v = v_capacity v then (if v_size v = 0 then 1 else v_capacity v * 2)
            else v_capacity v"
  have i: "i \<le> unat (v_size v)"
  proof (rule ccontr)
    assume "\<not> i \<le> unat (v_size v)"
    then have "Insert E (ptr_add (v_begin v) i) x v m = Inl AssertFailed" by (rule Insert_assert)
    with assms(3) show False by simp
  qed
  have ob: "obtainable E (unat ?n)"
  proof (rule ccontr)
    assume "\<not> obtainable E (unat ?n)"
    then have "Insert E (ptr_add (v_begin v) i) x v m = Inl BadAlloc"
      using assms(1) i by (intro Insert_fail)
    with assms(3) show False by simp
  qed
  from Insert_ok [OF assms(1) i ob, of x] assms(3)
  have "v_items v' = Some (fresh m)"
    "m' = adopt v (take i (elems v m) @ x # drop i (elems v m) @
                    replicate (unat ?n - Suc (unat (v_size v))) (Type_default E)) m"
    by auto
  with Insert_step(1) [OF assms(1,2) i assms(3)] show ?thesis
    by (auto intro!: frame_adopt)
qed

lemma Erase_outside:
  assumes "\<not> i < unat (v_size v)"
  shows "\<exists>e. Erase E (ptr_add (v_begin v) i) v m = Inl e"
proof (cases "v_size v = 0 \<or> unat (v_size v) < i")
  case True
  then show ?thesis
    by (auto simp: Erase_def IsEmpty_def v_begin_def Get_def ptr_add_def ptr_le_def)
next
  case False
  with assms have i: "i = unat (v_size v)" and ne: "v_size v \<noteq> 0" by auto
  have "std_move E (Ptr (v_items v) (Suc i)) (Ptr (v_items v) i) (Ptr (v_items v) i) m =
        Inl Undefined"
    by (subst std_move.simps) simp
  with i ne show ?thesis
    by (simp add: Erase_def IsEmpty_def v_begin_def Get_def ptr_add_def ptr_le_def Let_def)
qed

lemma Erase_frame:
  assumes "wf v m" "Erase E (ptr_add (v_begin v) i) v m = Inr (p, v', m')"
  shows "frame v m v' m'"
proof -
  have i: "i < unat (v_size v)"
  proof (rule ccontr)
    assume "\<not> i < unat (v_size v)"
    then obtain e where "Erase E (ptr_add (v_begin v) i) v m = Inl e"
      using Erase_outside by blast
    with assms(2) show False by simp
  qed
  from Erase_ok [OF assms(1) i, of E] assms(2)
  have f: "v' = v\<lparr>v_size := v_size v - 1\<rparr>"
    "m' = write_slots v (shift_left E (slots v m) i (unat (v_size v))) m" by simp_all
  from Erase_step [OF assms(1) i, of E] assms(2) have "wf v' m'" by auto
  with f show ?thesis by (auto intro!: frame_write)
qed

lemma Reserve_frame:
  assumes "wf v m" "env_ok E" "Reserve E n v m = Inr (v', m')"
  shows "frame v m v' m'"
proof (cases "v_capacity v < n")
  case False
  with assms show ?thesis by (auto simp: Reserve_noop intro!: frame_same)
next
  case True
  have ob: "obtainable E (unat n)"
  proof (rule ccontr)
    assume "\<not> obtainable E (unat n)"
    with True have "Reserve E n v m = Inl BadAlloc" by (intro Reserve_fail)
    with assms(3) show False by simp
  qed
  then have nb: "unat n < 2 ^ 63" using assms(2) by (simp add: env_ok_def)
  let ?xs = "elems v m @ replicate (unat n - unat (v_size v)) (Type_default E)"
  from Reserve_adopt [OF assms(1) True ob] assms(3)
  have f: "v' = v\<lparr>v_items := Some (fresh m), v_capacity := n\<rparr>" "m' = adopt v ?xs m"
    by simp_all
  have sn: "unat (v_size v) \<le> unat n"
    using True wf_size_le [OF assms(1)] by (simp add: word_less_nat_alt)
  have "wf v' m'"
    unfolding f using assms(1) nb sn wf_length_elems [OF assms(1)]
    by (intro wf_adopt) (simp_all add: word_le_nat_alt)
  with f show ?thesis by (auto intro!: frame_adopt)
qed

lemma Resize_frame:
  assumes "wf v m" "env_ok E" "Resize E n v m = Inr (v', m')"
  shows "frame v m v' m'"
proof -
  consider "v_size v = n" | "n < v_size v" | "v_size v < n" "n \<le> v_capacity v"
    | "v_capacity v < n"
    by (metis not_less_iff_gr_or_eq not_le)
  then show ?thesis
  proof cases
    case 1
    with assms show ?thesis by (auto simp: Resize_same intro!: frame_same)
  next
    case 2
    from Resize_shrink [OF assms(1) 2, of E] assms(3)
    have f: "v' = v\<lparr>v_size := n\<rparr>" "m' = m" by simp_all
    have "n \<le> v_capacity v" using 2 assms(1) by (auto simp: wf_def)
    then have "wf v' m'" unfolding f using assms(1) by (intro wf_size_update)
    with f show ?thesis by (auto intro!: frame_same)
  next
    case 3
    let ?xs = "overwrite (slots v m) (unat (v_size v))
                 (replicate (unat n - unat (v_size v)) (Type_default E))"
    from Resize_expose [OF assms(1) 3, of E] assms(3)
    have f: "v' = v\<lparr>v_size := n\<rparr>" "m' = write_slots v ?xs m" by simp_all
    from 3 assms(1) have "v_capacity v \<noteq> 0" by auto
    with assms(1) obtain a where a: "v_items v = Some a" using wf_items_Some by blast
    have le: "unat (v_size v) \<le> unat n" "unat n \<le> unat (v_capacity v)"
      using 3 by (simp_all add: word_less_nat_alt word_le_nat_alt)
    have "length ?xs = unat (v_capacity v)"
      using le wf_length_slots [OF assms(1)] by simp
    then have "wf v' m'"
      unfolding f using assms(1) a 3
      by (intro wf_write_slots [where a = a]) (simp_all add: wf_def)
    with f show ?thesis by (auto intro!: frame_write)
  next
    case 4
    let ?k = "max (unat n) (2 * unat (v_capacity v))"
    have ob: "obtainable E ?k"
    proof (rule ccontr)
      assume "\<not> obtainable E ?k"
      then have "Resize E n v m = Inl BadAlloc" using assms(1) 4 by (intro Resize_fail)
      with assms(3) show False by simp
    qed
    with assms(2) have kb: "?k < 2 ^ 63" unfolding env_ok_def by blast
    let ?xs = "elems v m @ replicate (?k - unat (v_size v)) (Type_default E)"
    from Resize_grow [OF assms(1) 4 ob] assms(3)
    have f: "v' = v\<lparr>v_items := Some (fresh m), v_capacity := max n (v_capacity v * 2), v_size := n\<rparr>"
      "m' = adopt v ?xs m" by simp_all
    have g: "unat (max n (v_capacity v * 2)) = ?k"
      by (rule Resize_grow_capacity(2) [OF assms(1) 4])
    have sn: "unat (v_size v) \<le> ?k"
      using 4 wf_size_le [OF assms(1)] by (simp add: word_less_nat_alt)
    have "wf v' m'"
      unfolding f using assms(1) kb sn g wf_length_elems [OF assms(1)]
      by (intro wf_adopt) (simp_all add: word_le_nat_alt)
    with f show ?thesis by (auto intro!: frame_adopt)
  qed
qed

lemma mutate_frame:
  assumes "wf v m" "env_ok E" "mutate E mu v m = Inr (v', m')"
  shows "frame v m v' m'"
proof (cases mu)
  case (MPushBack r)
  with assms(3) obtain x where "PushBack E (Local x) v m = Inr (v', m')"
    using PushBack_by_value [of E r v m v' m'] by auto
  with assms(1,2) show ?thesis by (rule PushBack_frame)
next
  case MPopBack
  with assms(3) have f: "v_size v \<noteq> 0" "v' = v\<lparr>v_size := v_size v - 1\<rparr>" "m' = m"
    by (auto simp: PopBack_def IsEmpty_def split: if_splits)
  have "unat (v_size v - 1) = unat (v_size v) - 1" using f(1) by (rule unat_minus_one)
  then have "v_size v - 1 \<le> v_capacity v"
    using wf_size_le [OF assms(1)] by (simp add: word_le_nat_alt)
  then have "wf v' m'" unfolding f using assms(1) by (intro wf_size_update)
  with f show ?thesis by (auto intro!: frame_same)
next
  case (MInsert i x)
  with assms(3) obtain p where "Insert E (ptr_add (v_begin v) i) x v m = Inr (p, v', m')"
    by (cases "Insert E (ptr_add (v_begin v) i) x v m") auto
  with assms(1,2) show ?thesis by (rule Insert_frame)
next
  case (MErase i)
  with assms(3) obtain p where "Erase E (ptr_add (v_begin v) i) v m = Inr (p, v', m')"
    by (cases "Erase E (ptr_add (v_begin v) i) v m") auto
  with assms(1) show ?thesis by (rule Erase_frame)
next
  case (MResize n)
  with assms show ?thesis by (auto intro: Resize_frame)
next
  case (MReserve n)
  with assms show ?thesis by (auto intro: Reserve_frame)
next
  case MClear
  with assms(3) have f: "v' = v\<lparr>v_size := 0\<rparr>" "m' = m" by (simp_all add: Clear_def)
  have "wf v' m'" unfolding f using assms(1) by (intro wf_size_update) simp_all
  with f show ?thesis by (auto intro!: frame_same)
next
  case (MAssign i x)
  have lt: "i < v_size v"
  proof (rule ccontr)
    assume "\<not> i < v_size v"
    then have "At i v = Inl OutOfRange" by (simp add: At_def)
    with assms(3) MAssign show False by simp
  qed
  then have u: "unat i < unat (v_size v)" by (simp add: word_less_nat_alt)
  with wf_size_le [OF assms(1)] have uc: "unat i < unat (v_capacity v)" by simp
  then have "v_capacity v \<noteq> 0" by auto
  with assms(1) obtain a where a: "v_items v = Some a" using wf_items_Some by blast
  let ?xs = "(slots v m)[unat i := x]"
  have st: "store (Ptr (v_items v) (unat i)) x m = Inr (write_slots v ?xs m)"
    using assms(1) uc by (rule store_slot)
  have at: "At i v = Inr (Ptr (v_items v) (unat i))"
    using lt by (auto simp: At_def subscript_def)
  from assms(3) MAssign at st have f: "v' = v" "m' = write_slots v ?xs m"
    by auto
  have "wf v' m'"
    unfolding f using assms(1) a wf_length_slots [OF assms(1)]
    by (intro wf_write_slots [where a = a]) (simp_all add: wf_def)
  with f show ?thesis by (auto intro!: frame_write)
qed

section \<open>Objects and ownership\<close>

lemma world_ok_ex_world: "world_ok ex_world"
  by (auto simp: world_ok_def ex_world_def wf_ex_vec wf_ex_vec_124 wf_ex_vec_12 wf_default)
     (auto simp: ex_vec_def ex_vec_124_def ex_vec_12_def SimpleVector_default_def split: if_splits)

lemma world_okD:
  assumes "world_ok w"
  shows "wf (objs w i) (heap w)"
    and "i \<noteq> j \<Longrightarrow> v_items (objs w i) = Some a \<Longrightarrow> v_items (objs w j) \<noteq> Some a"
proof -
  from assms show "wf (objs w i) (heap w)" by (simp add: world_ok_def)
  assume ij: "i \<noteq> j" and a: "v_items (objs w i) = Some a"
  from assms have "i \<noteq> j \<longrightarrow> v_items (objs w i) \<noteq> None \<longrightarrow>
      v_items (objs w i) \<noteq> v_items (objs w j)"
    unfolding world_ok_def by blast
  with ij a show "v_items (objs w j) \<noteq> Some a" by simp
qed

lemma ArrayPtr_release_None [simp]: "ArrayPtr_release None m = m"
  by (simp add: ArrayPtr_release_def)

lemma wf_other_block:
  assumes "wf u m" "fresh m \<le> fresh m'"
    "\<forall>a. v_items u = Some a \<longrightarrow> blocks m' a = blocks m a"
  shows "wf u m'" and "slots u m' = slots u m"
  using assms by (auto simp: wf_def slots_def split: option.splits)

lemma world_frame:
  assumes "world_ok w" "frame u (heap w) v' m'"
    "v_items u = None \<or> v_items u = v_items (objs w this)"
  shows "world_ok (w\<lparr>objs := (objs w)(this := v'), heap := m'\<rparr>)"
    and "z \<noteq> this \<Longrightarrow> slots (objs w z) m' = slots (objs w z) (heap w)"
proof -
  let ?m = "heap w"
  from assms(2) have f: "wf v' m'" "fresh ?m \<le> fresh m'"
    "v_items v' = v_items u \<or> v_items v' = Some (fresh ?m)"
    "\<And>a. a < fresh ?m \<Longrightarrow> Some a \<noteq> v_items u \<Longrightarrow> blocks m' a = blocks ?m a"
    by (auto simp: frame_def)
  have other: "\<forall>a. v_items (objs w z) = Some a \<longrightarrow> blocks m' a = blocks ?m a \<and> a < fresh ?m"
    if "z \<noteq> this" for z
  proof (intro allI impI)
    fix a assume a: "v_items (objs w z) = Some a"
    have lt: "a < fresh ?m" using world_okD(1) [OF assms(1), of z] a by (simp add: wf_Some)
    have "v_items (objs w this) \<noteq> Some a" using world_okD(2) [OF assms(1) that a] .
    with assms(3) have "Some a \<noteq> v_items u" by auto
    with lt show "blocks m' a = blocks ?m a \<and> a < fresh ?m" by (simp add: f(4))
  qed
  show "slots (objs w z) m' = slots (objs w z) ?m" if "z \<noteq> this"
    using wf_other_block(2) [OF world_okD(1) [OF assms(1), of z] f(2)] other [OF that] by simp
  have w1: "wf (objs w z) m'" if "z \<noteq> this" for z
    using wf_other_block(1) [OF world_okD(1) [OF assms(1), of z] f(2)] other [OF that] by simp
  have d1: "v_items v' \<noteq> v_items (objs w z)" if "z \<noteq> this" "v_items v' \<noteq> None" for z
  proof
    assume e: "v_items v' = v_items (objs w z)"
    with that obtain a where a: "v_items (objs w z) = Some a" by auto
    from other [OF that(1)] a have lt: "a < fresh ?m" by simp
    from f(3) show False
    proof
      assume "v_items v' = v_items u"
      with assms(3) that(2) have "v_items v' = v_items (objs w this)" by auto
      with e a world_okD(2) [OF assms(1) that(1) a] show False by simp
    next
      assume "v_items v' = Some (fresh ?m)"
      with e a lt show False by simp
    qed
  qed
  show "world_ok (w\<lparr>objs := (objs w)(this := v'), heap := m'\<rparr>)"
    unfolding world_ok_def
  proof (intro conjI allI impI)
    fix i
    show "wf (objs (w\<lparr>objs := (objs w)(this := v'), heap := m'\<rparr>) i)
             (heap (w\<lparr>objs := (objs w)(this := v'), heap := m'\<rparr>))"
      using f(1) w1 by simp
  next
    fix i j :: nat
    assume ij: "i \<noteq> j"
      and ne: "v_items (objs (w\<lparr>objs := (objs w)(this := v'), heap := m'\<rparr>) i) \<noteq> None"
    show "v_items (objs (w\<lparr>objs := (objs w)(this := v'), heap := m'\<rparr>) i) \<noteq>
          v_items (objs (w\<lparr>objs := (objs w)(this := v'), heap := m'\<rparr>) j)"
    proof (cases "i = this")
      case True
      with ij ne d1 [of j] show ?thesis by simp
    next
      case False
      show ?thesis
      proof (cases "j = this")
        case True
        with False ne d1 [of i] show ?thesis by auto
      next
        case j: False
        with False ij ne assms(1) show ?thesis by (auto simp: world_ok_def)
      qed
    qed
  qed
qed

lemma mutate_obj_frame:
  assumes "world_ok w" "env_ok E" "mutate_obj E this mu w = Inr w'"
  shows "world_ok w'" and "z \<noteq> this \<Longrightarrow> objs w' z = objs w z"
    and "z \<noteq> this \<Longrightarrow> slots (objs w' z) (heap w') = slots (objs w z) (heap w)"
proof -
  from assms(3) obtain v' m' where
    mu: "mutate E mu (objs w this) (heap w) = Inr (v', m')"
    and w': "w' = w\<lparr>objs := (objs w)(this := v'), heap := m'\<rparr>"
    by (cases "mutate E mu (objs w this) (heap w)") (auto simp: mutate_obj_def)
  have fr: "frame (objs w this) (heap w) v' m'"
    using world_okD(1) [OF assms(1)] assms(2) mu by (rule mutate_frame)
  show "world_ok w'" unfolding w' using assms(1) fr by (rule world_frame) simp
  show "objs w' z = objs w z" if "z \<noteq> this" using that by (simp add: w')
  show "slots (objs w' z) (heap w') = slots (objs w z) (heap w)" if "z \<noteq> this"
    using world_frame(2) [OF assms(1) fr _ that] that by (simp add: w')
qed

lemma mutate_all_frame:
  assumes "env_ok E" "z \<noteq> this"
  shows "world_ok w \<Longrightarrow> mutate_all E this mus w = Inr w' \<Longrightarrow>
         world_ok w' \<and> objs w' z = objs w z \<and>
         slots (objs w' z) (heap w') = slots (objs w z) (heap w)"
proof (induction mus arbitrary: w)
  case Nil
  then show ?case by simp
next
  case (Cons mu mus)
  from Cons.prems(2) obtain w1 where
    a: "mutate_obj E this mu w = Inr w1" and b: "mutate_all E this mus w1 = Inr w'"
    by (cases "mutate_obj E this mu w") auto
  note st = mutate_obj_frame [OF Cons.prems(1) assms(1) a]
  from Cons.IH [OF st(1) b] have ih: "world_ok w'" "objs w' z = objs w1 z"
    "slots (objs w' z) (heap w') = slots (objs w1 z) (heap w1)" by blast+
  have "objs w' z = objs w z" using ih(2) st(2) [OF assms(2)] by (rule trans)
  moreover have "slots (objs w' z) (heap w') = slots (objs w z) (heap w)"
    using ih(3) st(3) [OF assms(2)] by (rule trans)
  ultimately show ?case using ih(1) by blast
qed

lemma copy_frame:
  assumes "wf other m" "wf this_v m" "SimpleVector_copy E other m = Inr (v', m0)"
  shows "frame SimpleVector_default m v' m0"
    and "frame this_v m v' (ArrayPtr_release (v_items this_v) m0)"
    and "v_size v' = v_size other" and "v_capacity v' = v_capacity other"
    and "v_items v' = Some (fresh m)"
    and "slots v' m0 =
           elems other m @ replicate (unat (v_capacity other) - unat (v_size other)) (Type_default E)"
    and "slots v' (ArrayPtr_release (v_items this_v) m0) = slots v' m0"
proof -
  let ?xs = "elems other m @
             replicate (unat (v_capacity other) - unat (v_size other)) (Type_default E)"
  have ob: "obtainable E (unat (v_capacity other))"
  proof (rule ccontr)
    assume "\<not> obtainable E (unat (v_capacity other))"
    then have "SimpleVector_copy E other m = Inl BadAlloc" by (rule SimpleVector_copy_fail)
    with assms(3) show False by simp
  qed
  from SimpleVector_copy_ok [OF assms(1) ob] assms(3)
  have v': "v' = \<lparr>v_size = v_size other, v_capacity = v_capacity other, v_items = Some (fresh m)\<rparr>"
    and m0: "m0 = adopt SimpleVector_default ?xs m" by simp_all
  have rel: "ArrayPtr_release (v_items this_v) m0 = adopt this_v ?xs m"
    by (simp add: m0 adopt_def SimpleVector_default_def)
  have len: "length ?xs = unat (v_capacity other)"
    using wf_length_elems [OF assms(1)] wf_size_le [OF assms(1)] by simp
  have b: "v_size other \<le> v_capacity other" "unat (v_capacity other) < 2 ^ 63"
    using assms(1) by (simp_all add: wf_def)
  show "v_size v' = v_size other" "v_capacity v' = v_capacity other"
    "v_items v' = Some (fresh m)" by (simp_all add: v')
  have w0: "wf v' m0" unfolding m0 using b len by (intro wf_fresh_block) (simp_all add: v')
  have w1: "wf v' (adopt this_v ?xs m)"
    using assms(2) b len by (intro wf_adopt) (simp_all add: v')
  show "frame SimpleVector_default m v' m0"
    using w0 unfolding m0 by (intro frame_adopt) (simp_all add: v')
  show "frame this_v m v' (ArrayPtr_release (v_items this_v) m0)"
    unfolding rel using w1 by (intro frame_adopt) (simp_all add: v')
  show "slots v' m0 = ?xs" unfolding m0 by (intro slots_fresh_block) (simp add: v')
  then show "slots v' (ArrayPtr_release (v_items this_v) m0) = slots v' m0"
    unfolding rel using slots_adopt [OF assms(2), of v' ?xs] by (simp add: v')
qed

section \<open>Copying and moving\<close>

lemma SimpleVector_eta:
  "\<lparr>v_size = v_size v, v_capacity = v_capacity v, v_items = v_items v\<rparr> = (v :: SimpleVector)"
  by (cases v) simp

lemma swap_vec_eq: "swap_vec this other = (other, this)"
  by (simp add: swap_vec_def ArrayPtr_swap_def)

lemma construct_copy_Inr:
  "construct_copy E this other w = Inr w1 \<Longrightarrow>
   \<exists>v' m0. SimpleVector_copy E (objs w other) (heap w) = Inr (v', m0) \<and>
            w1 = w\<lparr>objs := (objs w)(this := v'), heap := m0\<rparr>"
  by (cases "SimpleVector_copy E (objs w other) (heap w)") (auto simp: construct_copy_def)

lemma copy_assign_Inr:
  "this \<noteq> other \<Longrightarrow> copy_assign E this other w = Inr w1 \<Longrightarrow>
   \<exists>v' m0. SimpleVector_copy E (objs w other) (heap w) = Inr (v', m0) \<and>
            w1 = w\<lparr>objs := (objs w)(this := v'),
                  heap := ArrayPtr_release (v_items (objs w this)) m0\<rparr>"
  by (cases "SimpleVector_copy E (objs w other) (heap w)")
     (auto simp: copy_assign_def swap_vec_eq destroy_def)

lemma take_elems_prefix:
  "wf v m \<Longrightarrow> take (unat (v_size v)) (elems v m @ ys) = elems v m"
  by (simp add: wf_length_elems)

lemma copy_world:
  assumes "world_ok w" "this \<noteq> other"
    "construct_copy E this other w = Inr w1 \<or> copy_assign E this other w = Inr w1"
  shows "world_ok w1" and "objs w1 other = objs w other"
    and "slots (objs w1 other) (heap w1) = slots (objs w other) (heap w)"
    and "v_size (objs w1 this) = v_size (objs w other)"
    and "v_capacity (objs w1 this) = v_capacity (objs w other)"
    and "elems (objs w1 this) (heap w1) = elems (objs w other) (heap w)"
    and "v_items (objs w1 this) \<noteq> v_items (objs w1 other)"
proof -
  let ?m = "heap w"
  let ?ov = "objs w other"
  let ?tv = "objs w this"
  let ?xs = "elems ?ov ?m @
             replicate (unat (v_capacity ?ov) - unat (v_size ?ov)) (Type_default E)"
  have wo: "wf ?ov ?m" and wt: "wf ?tv ?m" using assms(1) by (simp_all add: world_okD(1))
  from assms(3) obtain v' m0 u where
    cp: "SimpleVector_copy E ?ov ?m = Inr (v', m0)"
    and w1: "w1 = w\<lparr>objs := (objs w)(this := v'), heap := ArrayPtr_release (v_items u) m0\<rparr>"
    and u: "u = SimpleVector_default \<or> u = ?tv"
  proof
    assume "construct_copy E this other w = Inr w1"
    from construct_copy_Inr [OF this] obtain v' m0 where
      "SimpleVector_copy E ?ov ?m = Inr (v', m0)"
      "w1 = w\<lparr>objs := (objs w)(this := v'), heap := m0\<rparr>" by blast
    then show ?thesis
      using that [of v' m0 SimpleVector_default] by (simp add: SimpleVector_default_def)
  next
    assume "copy_assign E this other w = Inr w1"
    from copy_assign_Inr [OF assms(2) this] obtain v' m0 where
      "SimpleVector_copy E ?ov ?m = Inr (v', m0)"
      "w1 = w\<lparr>objs := (objs w)(this := v'), heap := ArrayPtr_release (v_items ?tv) m0\<rparr>"
      by blast
    then show ?thesis using that [of v' m0 ?tv] by simp
  qed
  have wu: "wf u ?m" using u wt by (auto simp: wf_default)
  note cf = copy_frame [OF wo wu cp]
  have iu: "v_items u = None \<or> v_items u = v_items ?tv"
    using u by (auto simp: SimpleVector_default_def)
  show ok: "world_ok w1" unfolding w1 using assms(1) cf(2) iu by (rule world_frame)
  show oo: "objs w1 other = objs w other" using assms(2) by (simp add: w1)
  show "slots (objs w1 other) (heap w1) = slots (objs w other) (heap w)"
    using world_frame(2) [OF assms(1) cf(2) iu, of other] assms(2) by (simp add: w1)
  show "v_size (objs w1 this) = v_size (objs w other)" by (simp add: w1 cf(3))
  show "v_capacity (objs w1 this) = v_capacity (objs w other)" by (simp add: w1 cf(4))
  have "slots (objs w1 this) (heap w1) = ?xs" by (simp add: w1 cf(6,7))
  then have "elems (objs w1 this) (heap w1) = take (unat (v_size ?ov)) ?xs"
    unfolding elems_def [of "objs w1 this"] by (simp add: w1 cf(3))
  also have "\<dots> = elems ?ov ?m" using wo by (rule take_elems_prefix)
  finally show "elems (objs w1 this) (heap w1) = elems (objs w other) (heap w)" .
  have "v_items (objs w1 this) = Some (fresh ?m)" by (simp add: w1 cf(5))
  moreover have "v_items ?ov \<noteq> Some (fresh ?m)"
    using wo by (auto simp: wf_def split: option.splits)
  ultimately show "v_items (objs w1 this) \<noteq> v_items (objs w1 other)"
    by (simp add: oo)
qed

text \<open>
  C8.  Copy construction and copy assignment from a different object give the target the
  size, the capacity and the elements of the source, in a block of its own; the source is
  untouched.  Whatever is then done to the copy through its member functions, the source
  keeps its size, its capacity and the contents of all its slots.  Assigning a vector to
  itself changes nothing.  Both copies succeed when a block of the source's capacity can
  be obtained.
\<close>

theorem copy_spec:
  assumes "world_ok w" "env_ok E" "this \<noteq> other"
  shows "(obtainable E (unat (v_capacity (objs w other))) \<longrightarrow>
            (\<exists>w1. construct_copy E this other w = Inr w1) \<and>
            (\<exists>w1. copy_assign E this other w = Inr w1)) \<and>
         (construct_copy E this other w = Inr w1 \<or> copy_assign E this other w = Inr w1 \<longrightarrow>
            v_size (objs w1 this) = v_size (objs w other) \<and>
            v_capacity (objs w1 this) = v_capacity (objs w other) \<and>
            elems (objs w1 this) (heap w1) = elems (objs w other) (heap w) \<and>
            v_items (objs w1 this) \<noteq> v_items (objs w1 other) \<and>
            objs w1 other = objs w other \<and>
            slots (objs w1 other) (heap w1) = slots (objs w other) (heap w) \<and>
            (mutate_all E this mus w1 = Inr w2 \<longrightarrow>
               objs w2 other = objs w other \<and>
               slots (objs w2 other) (heap w2) = slots (objs w other) (heap w) \<and>
               elems (objs w2 other) (heap w2) = elems (objs w other) (heap w))) \<and>
         copy_assign E this this w = Inr w"
proof (intro conjI impI)
  show "copy_assign E this this w = Inr w" by (simp add: copy_assign_def)
next
  assume ob: "obtainable E (unat (v_capacity (objs w other)))"
  have "wf (objs w other) (heap w)" using assms(1) by (rule world_okD(1))
  from SimpleVector_copy_ok [OF this ob]
  show "\<exists>w1. construct_copy E this other w = Inr w1" "\<exists>w1. copy_assign E this other w = Inr w1"
    using assms(3) by (simp_all add: construct_copy_def copy_assign_def swap_vec_eq)
next
  assume c: "construct_copy E this other w = Inr w1 \<or> copy_assign E this other w = Inr w1"
  note cw = copy_world [OF assms(1,3) c]
  show "v_size (objs w1 this) = v_size (objs w other)" by (rule cw(4))
  show "v_capacity (objs w1 this) = v_capacity (objs w other)" by (rule cw(5))
  show "elems (objs w1 this) (heap w1) = elems (objs w other) (heap w)" by (rule cw(6))
  show "v_items (objs w1 this) \<noteq> v_items (objs w1 other)" by (rule cw(7))
  show "objs w1 other = objs w other" by (rule cw(2))
  show "slots (objs w1 other) (heap w1) = slots (objs w other) (heap w)" by (rule cw(3))
  assume mu: "mutate_all E this mus w1 = Inr w2"
  have ot: "other \<noteq> this" using assms(3) by simp
  from mutate_all_frame [OF assms(2) ot cw(1) mu]
  have a: "objs w2 other = objs w1 other"
    and b: "slots (objs w2 other) (heap w2) = slots (objs w1 other) (heap w1)" by blast+
  show o2: "objs w2 other = objs w other" using a cw(2) by (rule trans)
  show s2: "slots (objs w2 other) (heap w2) = slots (objs w other) (heap w)"
    using b cw(3) by (rule trans)
  show "elems (objs w2 other) (heap w2) = elems (objs w other) (heap w)"
    unfolding elems_def s2 by (simp add: o2)
qed

theorem copy_spec_witness:
  "world_ok ex_world \<and> env_ok ex_env \<and> (5 :: nat) \<noteq> 0 \<and>
   (\<exists>w1 w2. construct_copy ex_env 5 0 ex_world = Inr w1 \<and>
      v_size (objs w1 5) = 3 \<and> v_capacity (objs w1 5) = 4 \<and>
      elems (objs w1 5) (heap w1) = [1, 2, 3] \<and>
      mutate_all ex_env 5 [MAssign 0 9, MClear] w1 = Inr w2 \<and>
      v_size (objs w2 5) = 0 \<and>
      objs w2 0 = ex_vec \<and> elems (objs w2 0) (heap w2) = [1, 2, 3]) \<and>
   copy_assign ex_env 0 0 ex_world = Inr ex_world"
proof -
  have n: "(5 :: nat) \<noteq> 0" by simp
  have o: "objs ex_world 0 = ex_vec" "heap ex_world = ex_mem" by (simp_all add: ex_world_def)
  have ob: "obtainable ex_env (unat (v_capacity (objs ex_world 0)))"
    by (simp add: o) (simp add: ex_vec_def ex_env_def)
  from copy_spec [OF world_ok_ex_world env_ok_ex_env n] ob
  obtain w1 where c: "construct_copy ex_env 5 0 ex_world = Inr w1" by blast
  note cw = copy_world [OF world_ok_ex_world n disjI1 [OF c]]
  have sz: "v_size (objs w1 5) = 3" "v_capacity (objs w1 5) = 4"
    using cw(4,5) by (simp_all add: o) (simp_all add: ex_vec_def)
  have wf1: "wf (objs w1 5) (heap w1)" using cw(1) by (rule world_okD(1))
  have at: "At 0 (objs w1 5) = Inr (Ptr (v_items (objs w1 5)) (unat (0 :: size_t)))"
    by (simp add: At_def sz subscript_def)
  have st: "store (Ptr (v_items (objs w1 5)) (unat (0 :: size_t))) 9 (heap w1) =
            Inr (write_slots (objs w1 5) ((slots (objs w1 5) (heap w1))[unat (0 :: size_t) := 9]) (heap w1))"
  proof (rule store_slot [OF wf1])
    show "unat (0 :: size_t) < unat (v_capacity (objs w1 5))" by (simp add: sz(2))
  qed
  let ?w2 = "w1\<lparr>objs := (objs w1)(5 := Clear (objs w1 5)),
                 heap := write_slots (objs w1 5)
                           ((slots (objs w1 5) (heap w1))[unat (0 :: size_t) := 9]) (heap w1)\<rparr>"
  have mu: "mutate_all ex_env 5 [MAssign 0 9, MClear] w1 = Inr ?w2"
    using at st by (simp add: mutate_obj_def)
  have s0: "v_size (objs ?w2 5) = 0" by (simp add: Clear_def)
  from copy_spec [OF world_ok_ex_world env_ok_ex_env n, of w1 "[MAssign 0 9, MClear]" ?w2] c mu
  have "objs ?w2 0 = objs ex_world 0 \<and>
        elems (objs ?w2 0) (heap ?w2) = elems (objs ex_world 0) (heap ex_world) \<and>
        elems (objs w1 5) (heap w1) = elems (objs ex_world 0) (heap ex_world)"
    by blast
  then have iso: "objs ?w2 0 = ex_vec" "elems (objs ?w2 0) (heap ?w2) = [1, 2, 3]"
    "elems (objs w1 5) (heap w1) = [1, 2, 3]"
    unfolding o elems_ex_vec by blast+
  have self: "copy_assign ex_env 0 0 ex_world = Inr ex_world"
    using copy_spec [OF world_ok_ex_world env_ok_ex_env n, THEN conjunct2, THEN conjunct2] 
    by (simp add: copy_assign_def)
  have ex: "\<exists>w1 w2. construct_copy ex_env 5 0 ex_world = Inr w1 \<and>
      v_size (objs w1 5) = 3 \<and> v_capacity (objs w1 5) = 4 \<and>
      elems (objs w1 5) (heap w1) = [1, 2, 3] \<and>
      mutate_all ex_env 5 [MAssign 0 9, MClear] w1 = Inr w2 \<and>
      v_size (objs w2 5) = 0 \<and>
      objs w2 0 = ex_vec \<and> elems (objs w2 0) (heap w2) = [1, 2, 3]"
    by (intro exI [of _ w1] exI [of _ ?w2] conjI c sz iso mu s0)
  show ?thesis
    by (intro conjI world_ok_ex_world env_ok_ex_env n ex self)
qed

text \<open>
  C7 as amended.  The move constructor leaves the source with size 0, capacity 0 and no
  block, gives the new object the source's size, capacity and block, and touches nothing in
  the store.  Move assignment between two different objects exchanges the two vectors: the
  target gets what the source had and the source gets what the target had.  Move assignment
  of an object to itself changes nothing.  Neither can fail.
\<close>

theorem move_spec:
  "(this \<noteq> other \<longrightarrow>
      (\<exists>w'. construct_move this other w = Inr w' \<and> heap w' = heap w \<and>
         objs w' this = objs w other \<and>
         elems (objs w' this) (heap w') = elems (objs w other) (heap w) \<and>
         v_size (objs w' other) = 0 \<and> v_capacity (objs w' other) = 0 \<and>
         v_items (objs w' other) = None)) \<and>
   (this \<noteq> other \<longrightarrow>
      heap (move_assign this other w) = heap w \<and>
      objs (move_assign this other w) this = objs w other \<and>
      objs (move_assign this other w) other = objs w this) \<and>
   move_assign this this w = w"
  by (auto simp: construct_move_def SimpleVector_move_def ArrayPtr_move_assign_def
        SimpleVector_default_def
        move_assign_def swap_vec_eq Let_def SimpleVector_eta)

theorem move_spec_witness:
  "(5 :: nat) \<noteq> 0 \<and>
   (\<exists>w'. construct_move 5 0 ex_world = Inr w' \<and> objs w' 5 = ex_vec \<and>
      elems (objs w' 5) (heap w') = [1, 2, 3] \<and> v_size (objs w' 0) = 0 \<and>
      v_capacity (objs w' 0) = 0 \<and> v_items (objs w' 0) = None) \<and>
   objs (move_assign 5 0 ex_world) 5 = ex_vec \<and>
   objs (move_assign 5 0 ex_world) 0 = SimpleVector_default"
proof -
  have n: "(5 :: nat) \<noteq> 0" by simp
  have o: "objs ex_world 0 = ex_vec" "heap ex_world = ex_mem"
    "objs ex_world 5 = SimpleVector_default" by (simp_all add: ex_world_def)
  from move_spec [of 5 0 ex_world] n show ?thesis
    by (auto simp: o elems_ex_vec)
qed

text \<open>
  The claim as written fails for move assignment: assigning object 0 (1, 2, 3) to object 1
  (1, 2, 4) leaves object 0, the source, with the three elements, the capacity and the block
  that object 1 had.
\<close>

theorem move_assign_counterexample:
  "world_ok ex_world \<and>
   v_size (objs (move_assign 1 0 ex_world) 0) = 3 \<and>
   v_capacity (objs (move_assign 1 0 ex_world) 0) = 3 \<and>
   v_items (objs (move_assign 1 0 ex_world) 0) = Some 1 \<and>
   \<not> (v_size (objs (move_assign 1 0 ex_world) 0) = 0 \<and>
      v_capacity (objs (move_assign 1 0 ex_world) 0) = 0)"
  by (simp add: world_ok_ex_world)
     (simp add: move_assign_def swap_vec_eq ex_world_def ex_vec_124_def)

section \<open>The slots above the size\<close>

lemma vacant_default [simp]: "vacant E (Type_default E)"
  by (simp add: vacant_def)

lemma vacant_moved [simp]: "vacant E (moved_from E y)"
  by (auto simp: vacant_def)


















section \<open>Invariant I2\<close>










subsection \<open>All the objects of a world\<close>








lemma wf_ex_vec_s: "wf ex_vec_s ex_mem_s"
  by (simp add: wf_def ex_vec_s_def ex_mem_s_def)

lemma slots_ex_vec_s: "slots ex_vec_s ex_mem_s = [''ab'']"
  by (simp add: slots_def ex_vec_s_def ex_mem_s_def)

lemma PushBack_ab:
  "PushBack ex_env_s (Local ''ab'') SimpleVector_default ex_mem_empty = Inr (ex_vec_s, ex_mem_s)"
proof -
  have e: "v_size SimpleVector_default = v_capacity SimpleVector_default"
    by (simp add: SimpleVector_default_def)
  have ob: "obtainable ex_env_s
              (if unat (v_capacity SimpleVector_default) = 0 then 1
               else 2 * unat (v_capacity SimpleVector_default))"
    by (simp add: SimpleVector_default_def ex_env_s_def)
  have m: "adopt SimpleVector_default [''ab''] ex_mem_empty = ex_mem_s"
    by (simp add: adopt_default ex_mem_empty_def ex_mem_s_def fun_eq_iff)
  show ?thesis
    using PushBack_grow [of SimpleVector_default ex_mem_empty ex_env_s "''ab''", OF wf_default e ob] m
    by (simp add: elems_default)
       (simp add: SimpleVector_default_def ex_vec_s_def ex_mem_empty_def)
qed






section \<open>An argument that is a slot of the vector itself\<close>

lemma Reserve_ab:
  "Reserve ex_env_s 2 ex_vec_s ex_mem_s =
     Inr (\<lparr>v_size = 1, v_capacity = 2, v_items = Some 1\<rparr>,
          \<lparr>blocks = (\<lambda>a. if a = 1 then Some [''ab'', []] else None), fresh = 2\<rparr>)"
proof -
  have c: "v_capacity ex_vec_s < 2" by (simp add: ex_vec_s_def)
  have ob: "obtainable ex_env_s (unat (2 :: size_t))" by (simp add: ex_env_s_def)
  have e: "elems ex_vec_s ex_mem_s = [''ab'']"
    by (simp add: elems_def slots_ex_vec_s) (simp add: ex_vec_s_def)
  have m: "adopt ex_vec_s [''ab'', []] ex_mem_s =
           \<lparr>blocks = (\<lambda>a. if a = 1 then Some [''ab'', []] else None), fresh = 2\<rparr>"
    by (simp add: adopt_def ArrayPtr_release_def ex_vec_s_def ex_mem_s_def fun_eq_iff)
  have r: "replicate (unat (2 :: size_t) - unat (v_size ex_vec_s)) (Type_default ex_env_s) = [[]]"
    by (simp add: ex_vec_s_def ex_env_s_def)
  show ?thesis
    unfolding Reserve_adopt [OF wf_ex_vec_s c ob] e r
    using m by (simp add: ex_vec_s_def ex_mem_s_def)
qed

lemma PushBack_ab_ab:
  "PushBack ex_env_s (Local ''ab'') ex_vec_s ex_mem_s =
     Inr (\<lparr>v_size = 2, v_capacity = 2, v_items = Some 1\<rparr>,
          \<lparr>blocks = (\<lambda>a. if a = 1 then Some [''ab'', ''ab''] else None), fresh = 2\<rparr>)"
proof -
  have full: "v_size ex_vec_s = v_capacity ex_vec_s" by (simp add: ex_vec_s_def)
  have ob: "obtainable ex_env_s
              (if unat (v_capacity ex_vec_s) = 0 then 1 else 2 * unat (v_capacity ex_vec_s))"
    by (simp add: ex_vec_s_def ex_env_s_def)
  have e: "elems ex_vec_s ex_mem_s = [''ab'']"
    by (simp add: elems_def slots_ex_vec_s) (simp add: ex_vec_s_def)
  have m: "adopt ex_vec_s [''ab'', ''ab''] ex_mem_s =
           \<lparr>blocks = (\<lambda>a. if a = 1 then Some [''ab'', ''ab''] else None), fresh = 2\<rparr>"
    by (simp add: adopt_def ArrayPtr_release_def ex_vec_s_def ex_mem_s_def fun_eq_iff)
  have r: "replicate ((if unat (v_capacity ex_vec_s) = 0 then 1 else 2 * unat (v_capacity ex_vec_s))
             - Suc (unat (v_size ex_vec_s))) (Type_default ex_env_s) = []"
    by (simp add: ex_vec_s_def)
  show ?thesis
    unfolding PushBack_grow [OF wf_ex_vec_s full ob] e r
    using m by (simp add: ex_vec_s_def ex_mem_s_def)
qed

text \<open>
  C1.  \<^verbatim>\<open>v.PushBack(v[0])\<close> on a full vector.  \<^verbatim>\<open>PushBack("ab")\<close> on an empty vector of strings
  gives a vector of size 1 and capacity 1 whose slot 0, the object that \<^verbatim>\<open>v[0]\<close> refers to,
  holds \<^verbatim>\<open>"ab"\<close>.  Pushing the value \<^verbatim>\<open>"ab"\<close> once more gives a block holding \<^verbatim>\<open>"ab", "ab"\<close>.
  Pushing \<^verbatim>\<open>v[0]\<close> instead does not: \<^verbatim>\<open>Reserve(2)\<close> moves the element into a new block, which
  becomes \<^verbatim>\<open>"ab", ""\<close>, and releases the old block, and the argument is read after that, from
  a slot that no longer exists.  This holds for both overloads.
\<close>

theorem PushBack_alias_undefined:
  "PushBack ex_env_s (Local ''ab'') SimpleVector_default ex_mem_empty = Inr (ex_vec_s, ex_mem_s) \<and>
   v_size ex_vec_s = 1 \<and> v_capacity ex_vec_s = 1 \<and>
   operator_index 0 ex_vec_s = Inr (Ptr (Some 0) 0) \<and>
   read_ref (Stored (Ptr (Some 0) 0)) ex_mem_s = Inr ''ab'' \<and>
   PushBack ex_env_s (Local ''ab'') ex_vec_s ex_mem_s =
     Inr (\<lparr>v_size = 2, v_capacity = 2, v_items = Some 1\<rparr>,
          \<lparr>blocks = (\<lambda>a. if a = 1 then Some [''ab'', ''ab''] else None), fresh = 2\<rparr>) \<and>
   Reserve ex_env_s 2 ex_vec_s ex_mem_s =
     Inr (\<lparr>v_size = 1, v_capacity = 2, v_items = Some 1\<rparr>,
          \<lparr>blocks = (\<lambda>a. if a = 1 then Some [''ab'', []] else None), fresh = 2\<rparr>) \<and>
   read_ref (Stored (Ptr (Some 0) 0))
     \<lparr>blocks = (\<lambda>a. if a = 1 then Some [''ab'', []] else None), fresh = 2\<rparr> =
     (Inl Undefined :: error + string) \<and>
   PushBack ex_env_s (Stored (Ptr (Some 0) 0)) ex_vec_s ex_mem_s = Inl Undefined \<and>
   PushBack_rv ex_env_s (Stored (Ptr (Some 0) 0)) ex_vec_s ex_mem_s = Inl Undefined"
proof -
  have full: "v_size ex_vec_s = v_capacity ex_vec_s" by (simp add: ex_vec_s_def)
  have ob: "obtainable ex_env_s
              (if unat (v_capacity ex_vec_s) = 0 then 1 else 2 * unat (v_capacity ex_vec_s))"
    by (simp add: ex_vec_s_def ex_env_s_def)
  have own: "block_of (Ptr (Some 0) 0) = v_items ex_vec_s" by (simp add: ex_vec_s_def)
  have a: "v_size ex_vec_s = 1" "v_capacity ex_vec_s = 1"
    "operator_index 0 ex_vec_s = Inr (Ptr (Some 0) 0)"
    by (simp_all add: ex_vec_s_def operator_index_def subscript_def)
  have b: "read_ref (Stored (Ptr (Some 0) 0)) ex_mem_s = Inr ''ab''"
    by (simp add: read_ref_def load_def ex_mem_s_def)
  have d: "read_ref (Stored (Ptr (Some 0) 0))
     \<lparr>blocks = (\<lambda>a. if a = 1 then Some [''ab'', []] else None), fresh = 2\<rparr> =
     (Inl Undefined :: error + string)"
    by (simp add: read_ref_def load_def)
  note f = PushBack_alias [OF wf_ex_vec_s full own ob]
  show ?thesis
    by (intro conjI PushBack_ab a b PushBack_ab_ab d f Reserve_ab)
qed

end
